theory Spec2Isabelle
  imports Complex_Main "HOL-Library.Log_Nat"
begin

section \<open>Values shared by the model\<close>

text \<open>
  Grid cells are pairs \<open>(row, col)\<close> of Python integers. Every exception the modelled code
  can raise is a value of \<open>error\<close>; a function that can raise returns \<open>error + 'a\<close>.
\<close>

type_synonym cell = "int \<times> int"

datatype error =
    StartConflict cell nat
  | DestinationConflict cell nat
  | ValueError
  | KeyError
  | IndexError
  | ZeroDivisionError
  | StopIteration

subsection \<open>Binary floating point\<close>

text \<open>
  A float is modelled by the rational number it denotes. \<open>round_float p\<close> rounds a rational to
  the nearest number with a \<open>p\<close>-bit significand, ties to the even significand, which is what
  IEEE 754 arithmetic, Python's conversion of an \<open>int\<close> to \<open>float\<close>, Python's true division
  of two \<open>int\<close>s and the cast \<open>np.float32\<close> all do. The exponent is unbounded here: overflow
  to infinity and gradual underflow are outside the model (they need magnitudes beyond
  \<open>2^127\<close> or below \<open>2^-126\<close>).
\<close>

definition pow2 :: "int \<Rightarrow> rat" where
  "pow2 k = (if 0 \<le> k then 2 ^ nat k else 1 / 2 ^ nat (- k))"

definition round_half_even :: "rat \<Rightarrow> int" where
  "round_half_even y =
     (let f = \<lfloor>y\<rfloor>; d = y - of_int f
      in if d < 1 / 2 then f else if 1 / 2 < d then f + 1 else if even f then f else f + 1)"

text \<open>\<open>binade x\<close> is the exponent \<open>e\<close> with \<open>2^e \<le> |x| < 2^(e+1)\<close>, for \<open>x \<noteq> 0\<close>.\<close>

definition binade :: "rat \<Rightarrow> int" where
  "binade x =
     (let (a, b) = quotient_of \<bar>x\<bar>;
          d = bitlen a - bitlen b
      in if pow2 d \<le> \<bar>x\<bar> then d else d - 1)"

definition round_float :: "nat \<Rightarrow> rat \<Rightarrow> rat" where
  "round_float p x =
     (if x = 0 then 0
      else let q = pow2 (binade x - int p + 1)
           in of_int (round_half_even (x / q)) * q)"

definition float64 :: "rat \<Rightarrow> rat" where
  "float64 = round_float 53"

definition float32 :: "rat \<Rightarrow> rat" where
  "float32 = round_float 24"

section \<open>TrafficRoutingEnv\<close>

text \<open>
  The per-agent dictionaries of the class are maps from agent ids; \<open>_initial_positions\<close> and
  \<open>_arrived\<close> lose their leading underscore.
\<close>

record env =
  grid_size :: "int \<times> int"
  num_agents :: nat
  initial_positions :: "nat \<rightharpoonup> cell"
  destinations :: "nat \<rightharpoonup> cell"
  agent_positions :: "nat \<rightharpoonup> cell"
  arrived :: "nat \<rightharpoonup> bool"
  steps :: int
  obstacles :: "cell list"

text \<open>One entry of the dictionary built by \<open>_get_observations\<close>.\<close>

record observation =
  position :: cell
  destination :: cell
  obs_obstacles :: "cell list option"

subsection \<open>\<open>__init__\<close>\<close>

text \<open>
  The inner loop of the obstacle validation: for one obstacle, the agents in increasing order,
  the start checked before the destination.
\<close>

fun check_agents :: "cell \<Rightarrow> (nat \<rightharpoonup> cell) \<Rightarrow> (nat \<rightharpoonup> cell) \<Rightarrow> nat list \<Rightarrow> error option" where
  "check_agents ob ini dst [] = None"
| "check_agents ob ini dst (i # rest) =
     (if Some ob = ini i then Some (StartConflict ob i)
      else if Some ob = dst i then Some (DestinationConflict ob i)
      else check_agents ob ini dst rest)"

fun check_obstacles :: "(nat \<rightharpoonup> cell) \<Rightarrow> (nat \<rightharpoonup> cell) \<Rightarrow> nat \<Rightarrow> cell list \<Rightarrow> error option" where
  "check_obstacles ini dst n [] = None"
| "check_obstacles ini dst n (ob # rest) =
     (case check_agents ob ini dst [0..<n] of
        Some err \<Rightarrow> Some err
      | None \<Rightarrow> check_obstacles ini dst n rest)"

text \<open>
  The constructor draws the starts and the destinations from \<open>np.random.randint\<close>; the drawn
  cells are the arguments \<open>starts\<close> and \<open>goals\<close> (agent id to cell). \<open>randint\<close> raises
  \<open>ValueError\<close> when its bound is not positive, and otherwise returns a value below the bound,
  which \<open>drawn_in_grid\<close> states.
\<close>

definition in_grid :: "int \<times> int \<Rightarrow> cell \<Rightarrow> bool" where
  "in_grid gs c = (0 \<le> fst c \<and> fst c < fst gs \<and> 0 \<le> snd c \<and> snd c < snd gs)"

definition drawn_in_grid :: "int \<times> int \<Rightarrow> nat \<Rightarrow> (nat \<Rightarrow> cell) \<Rightarrow> bool" where
  "drawn_in_grid gs n draws = list_all (\<lambda>i. in_grid gs (draws i)) [0..<n]"

definition TrafficRoutingEnv_init ::
  "int \<times> int \<Rightarrow> nat \<Rightarrow> cell list option \<Rightarrow> (nat \<Rightarrow> cell) \<Rightarrow> (nat \<Rightarrow> cell) \<Rightarrow> error + env" where
  "TrafficRoutingEnv_init gs n obstacles_arg starts goals =
     (if 0 < n \<and> (fst gs \<le> 0 \<or> snd gs \<le> 0) then Inl ValueError
      else
        let ini = (\<lambda>i. if i < n then Some (starts i) else None);
            dst = (\<lambda>i. if i < n then Some (goals i) else None);
            obs = (case obstacles_arg of None \<Rightarrow> [] | Some l \<Rightarrow> l)
        in case check_obstacles ini dst n obs of
             Some err \<Rightarrow> Inl err
           | None \<Rightarrow>
               Inr \<lparr> grid_size = gs, num_agents = n, initial_positions = ini,
                     destinations = dst, agent_positions = ini,
                     arrived = (\<lambda>i. if i < n then Some False else None),
                     steps = 0, obstacles = obs \<rparr>)"

subsection \<open>\<open>_get_observations\<close> and \<open>reset\<close>\<close>

text \<open>
  The observation dictionary, in insertion order (agent \<open>0\<close> first). Looking up an agent id
  that a dictionary lacks raises \<open>KeyError\<close>.
\<close>

definition get_observations :: "env \<Rightarrow> error + (nat \<times> observation) list" where
  "get_observations e =
     (if list_all (\<lambda>i. agent_positions e i \<noteq> None \<and> destinations e i \<noteq> None) [0..<num_agents e]
      then Inr (map (\<lambda>i. (i, \<lparr> position = the (agent_positions e i),
                                destination = the (destinations e i),
                                obs_obstacles = Some (obstacles e) \<rparr>)) [0..<num_agents e])
      else Inl KeyError)"

text \<open>\<open>reset\<close> assigns three attributes and then returns the observations.\<close>

definition reset :: "env \<Rightarrow> env \<times> (error + (nat \<times> observation) list)" where
  "reset e =
     (let e' = e \<lparr> agent_positions := initial_positions e,
                   arrived := (\<lambda>i. if i < num_agents e then Some False else None),
                   steps := 0 \<rparr>
      in (e', get_observations e'))"

subsection \<open>\<open>step\<close>\<close>

text \<open>Actions are a dictionary from agent id to an integer: an association list.\<close>

type_synonym actions = "(nat \<times> int) list"

text \<open>\<open>self._arrived.get(i, False)\<close>\<close>

definition arrived_get :: "env \<Rightarrow> nat \<Rightarrow> bool" where
  "arrived_get e i = (case arrived e i of None \<Rightarrow> False | Some b \<Rightarrow> b)"

text \<open>The \<open>if\<close>/\<open>elif\<close> chain on the action: 0 up, 1 down, 2 left, 3 right, anything else stays.\<close>

definition move :: "int \<times> int \<Rightarrow> cell \<Rightarrow> int \<Rightarrow> cell" where
  "move gs p action =
     (let x = fst p; y = snd p
      in if action = 0 \<and> x > 0 then (x - 1, y)
         else if action = 1 \<and> x < fst gs - 1 then (x + 1, y)
         else if action = 2 \<and> y > 0 then (x, y - 1)
         else if action = 3 \<and> y < snd gs - 1 then (x, y + 1)
         else (x, y))"

definition desired_cell :: "env \<Rightarrow> cell \<Rightarrow> int \<Rightarrow> cell" where
  "desired_cell e p action =
     (let c = move (grid_size e) p action
      in if c \<in> set (obstacles e) then p else c)"

text \<open>
  The loop over \<open>actions.items()\<close> that fills \<open>new_positions\<close>; \<open>old_positions[i]\<close> raises
  \<open>KeyError\<close> for an id outside \<open>range(num_agents)\<close>.
\<close>

fun desired_positions ::
  "env \<Rightarrow> (nat \<rightharpoonup> cell) \<Rightarrow> actions \<Rightarrow> (nat \<rightharpoonup> cell) \<Rightarrow> error + (nat \<rightharpoonup> cell)" where
  "desired_positions e old [] new = Inr new"
| "desired_positions e old ((i, action) # rest) new =
     (case old i of
        None \<Rightarrow> Inl KeyError
      | Some p \<Rightarrow>
          if arrived_get e i then desired_positions e old rest (new(i \<mapsto> p))
          else desired_positions e old rest (new(i \<mapsto> desired_cell e p action)))"

text \<open>
  The swap detection: the pairs \<open>(i, j)\<close> with \<open>i < j < n\<close> in the order of the two nested
  loops, and the set the loop builds.
\<close>

definition agent_pairs :: "nat \<Rightarrow> (nat \<times> nat) list" where
  "agent_pairs n = concat (map (\<lambda>i. map (\<lambda>j. (i, j)) [i + 1..<n]) [0..<n])"

definition swap_loop :: "nat \<Rightarrow> (nat \<rightharpoonup> cell) \<Rightarrow> (nat \<rightharpoonup> cell) \<Rightarrow> nat set" where
  "swap_loop n old new =
     fold (\<lambda>(i, j) S. if new i = old j \<and> new j = old i then insert j (insert i S) else S)
          (agent_pairs n) {}"

text \<open>
  \<open>desired_cells\<close> is a \<open>defaultdict(list)\<close>: an association list from a cell to the agents
  that claim it, both in insertion order. \<open>dd_append d c i\<close> is \<open>d[c].append(i)\<close>.
\<close>

fun dd_append :: "(cell \<times> nat list) list \<Rightarrow> cell \<Rightarrow> nat \<Rightarrow> (cell \<times> nat list) list" where
  "dd_append [] c i = [(c, [i])]"
| "dd_append ((c', agents) # rest) c i =
     (if c' = c then (c', agents @ [i]) # rest else (c', agents) # dd_append rest c i)"

definition group_loop :: "nat \<Rightarrow> (nat \<rightharpoonup> cell) \<Rightarrow> nat set \<Rightarrow> (cell \<times> nat list) list" where
  "group_loop n new sb =
     fold (\<lambda>i d. if i \<in> sb then d
                  else case new i of None \<Rightarrow> d | Some c \<Rightarrow> dd_append d c i)
          [0..<n] []"

text \<open>The agents listed in a \<open>desired_cells\<close> dictionary.\<close>

definition claimants :: "(cell \<times> nat list) list \<Rightarrow> nat set" where
  "claimants d = \<Union>(set ` snd ` set d)"

definition collision_loop :: "(cell \<times> nat list) list \<Rightarrow> nat set" where
  "collision_loop d =
     fold (\<lambda>(c, agents) S. if length agents > 1 then fold insert agents S else S) d {}"

definition final_loop ::
  "nat \<Rightarrow> (nat \<rightharpoonup> cell) \<Rightarrow> (nat \<rightharpoonup> cell) \<Rightarrow> nat set \<Rightarrow> (nat \<rightharpoonup> cell)" where
  "final_loop n old new blk =
     (\<lambda>i. if i < n then (if i \<in> blk then old i else new i) else None)"

text \<open>
  The reward loop, agent by agent: the raw reward, the latch after the loop and the per-agent
  \<open>dones\<close> entry. \<open>e\<close> is the environment before the loop, with the positions already updated.
\<close>

definition raw_loop :: "env \<Rightarrow> (nat \<rightharpoonup> int)" where
  "raw_loop e =
     (\<lambda>i. if i < num_agents e
           then Some (if agent_positions e i = destinations e i
                      then (if arrived e i = Some False then 10 else 0)
                      else - 1)
           else None)"

definition arrived_loop :: "env \<Rightarrow> (nat \<rightharpoonup> bool)" where
  "arrived_loop e =
     (\<lambda>i. if i < num_agents e \<and> agent_positions e i = destinations e i \<and> arrived e i = Some False
           then Some True else arrived e i)"

definition dones_loop :: "env \<Rightarrow> (nat \<rightharpoonup> bool)" where
  "dones_loop e =
     (\<lambda>i. if i < num_agents e then Some (agent_positions e i = destinations e i) else None)"

definition manhattan :: "cell \<Rightarrow> cell \<Rightarrow> int" where
  "manhattan p g = \<bar>fst p - fst g\<bar> + \<bar>snd p - snd g\<bar>"

text \<open>
  \<open>np.float32(raw + (gamma * phi_new - phi_old))\<close> with \<open>gamma = 0.99\<close>: \<open>gamma\<close> is a double,
  the potentials and the raw reward are Python integers converted to double by each operation.
\<close>

definition gamma :: rat where
  "gamma = float64 (99 / 100)"

definition shaped_reward :: "int \<Rightarrow> cell \<Rightarrow> cell \<Rightarrow> cell \<Rightarrow> rat" where
  "shaped_reward raw old_pos new_pos goal =
     (let dist_old = manhattan old_pos goal;
          dist_new = manhattan new_pos goal;
          phi_old = - dist_old;
          phi_new = - dist_new
      in float32 (float64 (float64 (of_int raw)
            + float64 (float64 (gamma * float64 (of_int phi_new)) - float64 (of_int phi_old)))))"

text \<open>
  The local variables of \<open>step\<close> at its \<open>return\<close>. The method returns the tuple
  \<open>(observations, shaped_rewards, done, {}, num_collisions)\<close>; \<open>done\<close> is the field
  \<open>done_all\<close>, the name its caller gives it.
\<close>

record step_vars =
  old_positions :: "nat \<rightharpoonup> cell"
  new_positions :: "nat \<rightharpoonup> cell"
  swap_blocked :: "nat set"
  desired_cells :: "(cell \<times> nat list) list"
  collision_blocked :: "nat set"
  num_collisions :: nat
  blocked :: "nat set"
  raw_rewards :: "nat \<rightharpoonup> int"
  dones :: "nat \<rightharpoonup> bool"
  shaped_rewards :: "nat \<rightharpoonup> rat"
  done_all :: bool
  observations :: "(nat \<times> observation) list"

text \<open>
  \<open>step\<close>. A lookup of an agent id that a dictionary lacks raises \<open>KeyError\<close>: the model
  returns the error and does not describe the object a raise leaves behind.
  The lookups are, in the order of the source: \<open>agent_positions[i]\<close> for every agent,
  \<open>old_positions[i]\<close> for every key of \<open>actions\<close>, \<open>new_positions[i]\<close> for every agent
  (collision detection), and \<open>destinations[i]\<close>, \<open>_arrived[i]\<close> in the reward loop, the
  latter only for an agent standing on its destination.
\<close>

definition step :: "env \<Rightarrow> actions \<Rightarrow> error + (env \<times> step_vars)" where
  "step e acts =
     (let n = num_agents e in
      if \<not> list_all (\<lambda>i. agent_positions e i \<noteq> None) [0..<n] then Inl KeyError
      else
        let old = (\<lambda>i. if i < n then agent_positions e i else None)
        in case desired_positions e old acts Map.empty of
             Inl err \<Rightarrow> Inl err
           | Inr new \<Rightarrow>
               if \<not> list_all (\<lambda>i. new i \<noteq> None) [0..<n] then Inl KeyError
               else
                 let sb = swap_loop n old new;
                     dc = group_loop n new sb;
                     cb = collision_loop dc;
                     e1 = e \<lparr> agent_positions := final_loop n old new (sb \<union> cb),
                              steps := steps e + 1 \<rparr>
                 in if \<not> list_all (\<lambda>i. destinations e1 i \<noteq> None \<and>
                          (if agent_positions e1 i = destinations e1 i
                           then arrived e1 i \<noteq> None else True))
                        [0..<n]
                    then Inl KeyError
                    else
                      let raw = raw_loop e1;
                          ds = dones_loop e1;
                          e2 = e1 \<lparr> arrived := arrived_loop e1 \<rparr>;
                          shaped = (\<lambda>i. if i < n
                                     then Some (shaped_reward (the (raw i)) (the (old i))
                                                  (the (agent_positions e2 i)) (the (destinations e2 i)))
                                     else None)
                      in case get_observations e2 of
                           Inl err \<Rightarrow> Inl err
                         | Inr obs \<Rightarrow>
                             Inr (e2, \<lparr> old_positions = old, new_positions = new,
                                       swap_blocked = sb, desired_cells = dc,
                                       collision_blocked = cb,
                                       num_collisions = card sb + card cb,
                                       blocked = sb \<union> cb,
                                       raw_rewards = raw, dones = ds, shaped_rewards = shaped,
                                       done_all = (list_all (\<lambda>i. ds i = Some True) [0..<n]
                                                   \<or> steps e2 \<ge> 50),
                                       observations = obs \<rparr>))"

text \<open>A sequence of calls on one environment object; a raise ends it.\<close>

datatype call = Reset | Step actions

fun run :: "env \<Rightarrow> call list \<Rightarrow> error + env" where
  "run e [] = Inr e"
| "run e (Reset # cs) =
     (case snd (reset e) of Inl err \<Rightarrow> Inl err | Inr obs \<Rightarrow> run (fst (reset e)) cs)"
| "run e (Step acts # cs) =
     (case step e acts of Inl err \<Rightarrow> Inl err | Inr (e', v) \<Rightarrow> run e' cs)"

text \<open>
  The consecutive \<open>step\<close> calls of one episode (no \<open>reset\<close> in between): the environment
  and the locals after each call, and the environment the calls end in.
\<close>

fun episode :: "env \<Rightarrow> actions list \<Rightarrow> error + (env \<times> step_vars) list" where
  "episode e [] = Inr []"
| "episode e (acts # rest) =
     (case step e acts of
        Inl err \<Rightarrow> Inl err
      | Inr (e', v) \<Rightarrow>
          (case episode e' rest of
             Inl err \<Rightarrow> Inl err
           | Inr tr \<Rightarrow> Inr ((e', v) # tr)))"

definition env_after :: "env \<Rightarrow> (env \<times> step_vars) list \<Rightarrow> env" where
  "env_after e tr = (if tr = [] then e else fst (last tr))"

text \<open>The invariant of an episode: a latched agent stands on its destination.\<close>

definition latch_inv :: "env \<Rightarrow> bool" where
  "latch_inv e = (\<forall>i < num_agents e. arrived e i = Some True \<longrightarrow> agent_positions e i = destinations e i)"

text \<open>
  The invariants of an environment object: a cell is legal when it lies on the grid and is
  not an obstacle; every agent id is a key of the four dictionaries.
\<close>

definition legal_cell :: "env \<Rightarrow> cell \<Rightarrow> bool" where
  "legal_cell e c = (in_grid (grid_size e) c \<and> c \<notin> set (obstacles e))"

definition positions_legal :: "env \<Rightarrow> bool" where
  "positions_legal e =
     (\<forall>i < num_agents e.
        (\<exists>c. agent_positions e i = Some c \<and> legal_cell e c) \<and>
        (\<exists>c. initial_positions e i = Some c \<and> legal_cell e c))"

definition keys_present :: "env \<Rightarrow> bool" where
  "keys_present e =
     (\<forall>i < num_agents e.
        agent_positions e i \<noteq> None \<and> initial_positions e i \<noteq> None \<and>
        destinations e i \<noteq> None \<and> arrived e i \<noteq> None)"

text \<open>An action map is well formed when its keys are the agent ids.\<close>

definition well_formed_actions :: "nat \<Rightarrow> actions \<Rightarrow> bool" where
  "well_formed_actions n acts = (set (map fst acts) = set [0..<n])"

fun well_formed_call :: "nat \<Rightarrow> call \<Rightarrow> bool" where
  "well_formed_call n Reset = True"
| "well_formed_call n (Step acts) = well_formed_actions n acts"

section \<open>ReplayBuffer\<close>

text \<open>A stored transition is the tuple \<open>(state, action, reward, next_state, done)\<close>.\<close>

type_synonym transition = "rat list \<times> int \<times> rat \<times> rat list \<times> bool"

record ReplayBuffer =
  capacity :: int
  buffer :: "transition list"

text \<open>
  \<open>deque(maxlen=capacity)\<close> raises \<open>ValueError\<close> for a negative bound. \<open>append\<close> on a
  bounded deque adds on the right and, when the length then exceeds the bound, drops the
  leftmost element.
\<close>

definition ReplayBuffer_init :: "int \<Rightarrow> error + ReplayBuffer" where
  "ReplayBuffer_init c = (if c < 0 then Inl ValueError else Inr \<lparr> capacity = c, buffer = [] \<rparr>)"

definition deque_append :: "int \<Rightarrow> 'a list \<Rightarrow> 'a \<Rightarrow> 'a list" where
  "deque_append maxlen q x =
     (let q' = q @ [x] in if int (length q') > maxlen then tl q' else q')"

definition push :: "ReplayBuffer \<Rightarrow> rat list \<Rightarrow> int \<Rightarrow> rat \<Rightarrow> rat list \<Rightarrow> bool \<Rightarrow> ReplayBuffer" where
  "push b s a r s' d = b \<lparr> buffer := deque_append (capacity b) (buffer b) (s, a, r, s', d) \<rparr>"

definition ReplayBuffer_len :: "ReplayBuffer \<Rightarrow> nat" where
  "ReplayBuffer_len b = length (buffer b)"

text \<open>A sequence of \<open>push\<close> calls on one buffer.\<close>

definition pushes :: "ReplayBuffer \<Rightarrow> transition list \<Rightarrow> ReplayBuffer" where
  "pushes b ts = fold (\<lambda>(s, a, r, s', d) b'. push b' s a r s' d) ts b"

section \<open>obs_to_state\<close>

text \<open>
  The occupancy array is a function from an index pair to its \<open>float32\<close> entry. An index on
  an axis of length \<open>len\<close> is valid from \<open>-len\<close> to \<open>len - 1\<close>, a negative one counting from
  the end; any other raises \<open>IndexError\<close>.
\<close>

definition np_index :: "int \<Rightarrow> int \<Rightarrow> int option" where
  "np_index len k =
     (if 0 \<le> k \<and> k < len then Some k
      else if - len \<le> k \<and> k < 0 then Some (k + len)
      else None)"

text \<open>\<open>occupancy[r, c] = 1.0\<close> for each cell of a list, in order.\<close>

fun mark_cells :: "int \<times> int \<Rightarrow> cell list \<Rightarrow> (cell \<Rightarrow> rat) \<Rightarrow> error + (cell \<Rightarrow> rat)" where
  "mark_cells gs [] occ = Inr occ"
| "mark_cells gs (p # rest) occ =
     (case np_index (fst gs) (fst p) of
        None \<Rightarrow> Inl IndexError
      | Some r \<Rightarrow>
          (case np_index (snd gs) (snd p) of
             None \<Rightarrow> Inl IndexError
           | Some c \<Rightarrow> mark_cells gs rest (occ((r, c) := 1))))"

text \<open>The loop \<open>for j in range(len(obs))\<close>: \<open>obs[j]\<close> raises \<open>KeyError\<close> for a missing id.\<close>

fun mark_agents ::
  "int \<times> int \<Rightarrow> (nat \<times> observation) list \<Rightarrow> nat list \<Rightarrow> (cell \<Rightarrow> rat) \<Rightarrow> error + (cell \<Rightarrow> rat)" where
  "mark_agents gs obs [] occ = Inr occ"
| "mark_agents gs obs (j # js) occ =
     (case map_of obs j of
        None \<Rightarrow> Inl KeyError
      | Some info \<Rightarrow>
          (case mark_cells gs [position info] occ of
             Inl err \<Rightarrow> Inl err
           | Inr occ' \<Rightarrow> mark_agents gs obs js occ'))"

text \<open>The flattened 3 by 3 window around a cell, row by row; a cell off the grid stays 0.\<close>

definition local_window :: "int \<times> int \<Rightarrow> (cell \<Rightarrow> rat) \<Rightarrow> cell \<Rightarrow> rat list" where
  "local_window gs occ p =
     concat (map (\<lambda>dx_off. map (\<lambda>dy_off.
        let nx = fst p + dx_off; ny = snd p + dy_off
        in if 0 \<le> nx \<and> nx < fst gs \<and> 0 \<le> ny \<and> ny < snd gs then occ (nx, ny) else 0)
        [- 1, 0, 1]) [- 1, 0, 1])"

text \<open>
  The body of the loop over \<open>obs.items()\<close>. \<open>a / b\<close> on two Python integers is the correctly
  rounded double of the quotient and raises \<open>ZeroDivisionError\<close> when \<open>b\<close> is zero; the arrays
  are built with \<open>dtype=np.float32\<close>.
\<close>

definition true_div :: "int \<Rightarrow> int \<Rightarrow> rat" where
  "true_div a b = float64 (of_int a / of_int b)"

definition encode_agent :: "int \<times> int \<Rightarrow> (cell \<Rightarrow> rat) \<Rightarrow> observation \<Rightarrow> error + rat list" where
  "encode_agent gs occ info =
     (let H = fst gs; W = snd gs;
          x = fst (position info); y = snd (position info);
          dx = fst (destination info); dy = snd (destination info)
      in if H - 1 = 0 \<or> W - 1 = 0 then Inl ZeroDivisionError
         else
           let pos_vec = map float32 [true_div x (H - 1), true_div y (W - 1),
                                      true_div dx (H - 1), true_div dy (W - 1)];
               local_flat = local_window gs occ (x, y);
               dist = \<bar>x - dx\<bar> + \<bar>y - dy\<bar>
           in if (H - 1) + (W - 1) = 0 then Inl ZeroDivisionError
              else Inr (pos_vec @ local_flat @ [float32 (true_div dist ((H - 1) + (W - 1)))]))"

fun encode_all ::
  "int \<times> int \<Rightarrow> (cell \<Rightarrow> rat) \<Rightarrow> (nat \<times> observation) list \<Rightarrow> error + (nat \<times> rat list) list" where
  "encode_all gs occ [] = Inr []"
| "encode_all gs occ ((agent_id, info) # rest) =
     (case encode_agent gs occ info of
        Inl err \<Rightarrow> Inl err
      | Inr st \<Rightarrow>
          (case encode_all gs occ rest of
             Inl err \<Rightarrow> Inl err
           | Inr sts \<Rightarrow> Inr ((agent_id, st) # sts)))"

text \<open>
  \<open>obs_to_state\<close>: \<open>np.zeros\<close> raises \<open>ValueError\<close> for a negative dimension, and
  \<open>next(iter(obs.values()))\<close> raises \<open>StopIteration\<close> on an empty dictionary.
\<close>

definition obs_to_state ::
  "(nat \<times> observation) list \<Rightarrow> int \<times> int \<Rightarrow> error + (nat \<times> rat list) list" where
  "obs_to_state obs gs =
     (if fst gs < 0 \<or> snd gs < 0 then Inl ValueError
      else case obs of
             [] \<Rightarrow> Inl StopIteration
           | (k, first) # _ \<Rightarrow>
               (case mark_cells gs (case obs_obstacles first of None \<Rightarrow> [] | Some l \<Rightarrow> l) (\<lambda>p. 0) of
                  Inl err \<Rightarrow> Inl err
                | Inr occ1 \<Rightarrow>
                    (case mark_agents gs obs [0..<length obs] occ1 of
                       Inl err \<Rightarrow> Inl err
                     | Inr occupancy \<Rightarrow> encode_all gs occupancy obs)))"

text \<open>
  An observation map lies within the grid when every position, every destination and every
  listed obstacle does.
\<close>

definition obs_in_grid :: "int \<times> int \<Rightarrow> (nat \<times> observation) list \<Rightarrow> bool" where
  "obs_in_grid gs obs =
     list_all (\<lambda>(i, info). in_grid gs (position info) \<and> in_grid gs (destination info) \<and>
                 list_all (in_grid gs) (case obs_obstacles info of None \<Rightarrow> [] | Some l \<Rightarrow> l)) obs"

section \<open>MADQNTrainer\<close>

text \<open>
  \<open>select_action\<close>: a finished agent stays (action 4); otherwise the method returns the
  \<open>\<epsilon>\<close>-greedy choice, a random action or the arg-max of the policy network, which is the
  argument \<open>choice\<close>.
\<close>

definition select_action :: "int \<Rightarrow> bool \<Rightarrow> int" where
  "select_action choice done_flag = (if done_flag then 4 else choice)"

text \<open>
  One round of the loop of \<open>train\<close> that stores the transitions: for agent \<open>i\<close>, the replay
  buffer after the \<open>push\<close> and the entry \<open>done_dict[i]\<close> after the test \<open>rewards[i] == 10\<close>.
  \<open>r\<close> is \<open>rewards[i]\<close>, the shaped reward that \<open>step\<close> returned.
\<close>

definition store_transition ::
  "ReplayBuffer \<Rightarrow> bool \<Rightarrow> rat list \<Rightarrow> int \<Rightarrow> rat \<Rightarrow> rat list \<Rightarrow> ReplayBuffer \<times> bool" where
  "store_transition buf done_i s a r s' =
     (push buf s a r s' done_i, (if r = 10 then True else done_i))"

section \<open>Properties of the environment\<close>

subsection \<open>What a returning \<open>step\<close> computed\<close>

lemma step_Inr:
  assumes "step e acts = Inr (e', v)"
  shows "old_positions v = (\<lambda>i. if i < num_agents e then agent_positions e i else None)"
    and "desired_positions e (old_positions v) acts Map.empty = Inr (new_positions v)"
    and "swap_blocked v = swap_loop (num_agents e) (old_positions v) (new_positions v)"
    and "desired_cells v = group_loop (num_agents e) (new_positions v) (swap_blocked v)"
    and "collision_blocked v = collision_loop (desired_cells v)"
    and "blocked v = swap_blocked v \<union> collision_blocked v"
    and "num_collisions v = card (swap_blocked v) + card (collision_blocked v)"
    and "agent_positions e' = final_loop (num_agents e) (old_positions v) (new_positions v) (blocked v)"
    and "steps e' = steps e + 1"
    and "grid_size e' = grid_size e" and "obstacles e' = obstacles e"
    and "destinations e' = destinations e" and "initial_positions e' = initial_positions e"
    and "num_agents e' = num_agents e"
    and "arrived e' = arrived_loop (e \<lparr> agent_positions := agent_positions e', steps := steps e + 1 \<rparr>)"
    and "raw_rewards v = raw_loop (e \<lparr> agent_positions := agent_positions e', steps := steps e + 1 \<rparr>)"
    and "dones v = dones_loop (e \<lparr> agent_positions := agent_positions e', steps := steps e + 1 \<rparr>)"
    and "list_all (\<lambda>i. agent_positions e i \<noteq> None \<and> new_positions v i \<noteq> None \<and> destinations e i \<noteq> None) [0..<num_agents e]"
  using assms
  by (auto simp: step_def Let_def list_all_iff split: if_splits sum.splits)

lemma reset_fields:
  "grid_size (fst (reset e)) = grid_size e"
  "obstacles (fst (reset e)) = obstacles e"
  "destinations (fst (reset e)) = destinations e"
  "initial_positions (fst (reset e)) = initial_positions e"
  "num_agents (fst (reset e)) = num_agents e"
  "agent_positions (fst (reset e)) = initial_positions e"
  "arrived (fst (reset e)) = (\<lambda>i. if i < num_agents e then Some False else None)"
  "steps (fst (reset e)) = 0"
  by (simp_all add: reset_def Let_def)

lemma run_frame:
  "run e0 cs = Inr e \<Longrightarrow>
     grid_size e = grid_size e0 \<and> obstacles e = obstacles e0 \<and> destinations e = destinations e0
     \<and> initial_positions e = initial_positions e0 \<and> num_agents e = num_agents e0"
proof (induction cs arbitrary: e0)
  case Nil
  then show ?case by simp
next
  case (Cons c cs)
  show ?case
  proof (cases c)
    case Reset
    with Cons.prems have "run (fst (reset e0)) cs = Inr e"
      by (simp split: sum.splits)
    from Cons.IH[OF this] show ?thesis by (simp add: reset_fields)
  next
    case (Step acts)
    with Cons.prems obtain e1 v where s: "step e0 acts = Inr (e1, v)" and r: "run e1 cs = Inr e"
      by (auto split: sum.splits)
    from Cons.IH[OF r] step_Inr[OF s] show ?thesis by simp
  qed
qed

lemma init_fields:
  assumes "TrafficRoutingEnv_init gs n ob starts goals = Inr e0"
  shows "grid_size e0 = gs" "num_agents e0 = n"
    "obstacles e0 = (case ob of None \<Rightarrow> [] | Some l \<Rightarrow> l)"
    "initial_positions e0 = (\<lambda>i. if i < n then Some (starts i) else None)"
    "destinations e0 = (\<lambda>i. if i < n then Some (goals i) else None)"
    "agent_positions e0 = initial_positions e0"
    "arrived e0 = (\<lambda>i. if i < n then Some False else None)"
    "steps e0 = 0"
    "check_obstacles (initial_positions e0) (destinations e0) n (obstacles e0) = None"
  using assms
  by (auto simp: TrafficRoutingEnv_init_def Let_def split: if_splits option.splits)

subsection \<open>Frame conditions\<close>

text \<open>
  C8. Neither \<open>reset\<close> nor \<open>step\<close> changes the grid dimensions, the obstacles or a destination:
  in an environment reached from the constructor by any sequence of calls they are the
  constructor's. \<open>reset\<close> puts every agent back on the start the constructor drew, sets every
  latch to false and sets the step counter to zero.
\<close>

theorem reset_step_frame:
  assumes "TrafficRoutingEnv_init gs n ob starts goals = Inr e0"
    and "run e0 cs = Inr e"
    and "step e acts = Inr (e', v)"
  shows "grid_size e = gs \<and> obstacles e = obstacles e0 \<and> destinations e = destinations e0
     \<and> grid_size e' = grid_size e \<and> obstacles e' = obstacles e \<and> destinations e' = destinations e
     \<and> grid_size (fst (reset e)) = grid_size e \<and> obstacles (fst (reset e)) = obstacles e
     \<and> destinations (fst (reset e)) = destinations e
     \<and> (\<forall>i < n. agent_positions (fst (reset e)) i = Some (starts i)
                \<and> arrived (fst (reset e)) i = Some False)
     \<and> steps (fst (reset e)) = 0"
  using run_frame[OF assms(2)] init_fields[OF assms(1)] step_Inr[OF assms(3)]
  by (simp add: reset_fields)

theorem reset_step_frame_witness:
  "\<exists>e0 e e' v.
     TrafficRoutingEnv_init (2, 2) 1 (Some [(1, 0)]) (\<lambda>i. (0, 0)) (\<lambda>i. (1, 1)) = Inr e0
   \<and> run e0 [Step [(0, 3)], Reset, Step [(0, 1)]] = Inr e
   \<and> step e [(0, 3)] = Inr (e', v)
   \<and> grid_size e = (2, 2) \<and> obstacles e' = [(1, 0)] \<and> destinations e' 0 = Some (1, 1)
   \<and> agent_positions e 0 = Some (0, 0) \<and> agent_positions e' 0 = Some (0, 1)
   \<and> agent_positions (fst (reset e')) 0 = Some (0, 0)
   \<and> arrived (fst (reset e)) 0 = Some False \<and> steps (fst (reset e)) = 0"
proof -
  have "case TrafficRoutingEnv_init (2, 2) 1 (Some [(1, 0)]) (\<lambda>i. (0, 0)) (\<lambda>i. (1, 1)) of
          Inl _ \<Rightarrow> False
        | Inr e0 \<Rightarrow> (case run e0 [Step [(0, 3)], Reset, Step [(0, 1)]] of
            Inl _ \<Rightarrow> False
          | Inr e \<Rightarrow> (case step e [(0, 3)] of Inl _ \<Rightarrow> False
             | Inr (e', v) \<Rightarrow> agent_positions e 0 = Some (0, 0) \<and> agent_positions e' 0 = Some (0, 1)
                  \<and> agent_positions (fst (reset e')) 0 = Some (0, 0)))"
    by code_simp
  then obtain e0 e e' v where
    a: "TrafficRoutingEnv_init (2, 2) 1 (Some [(1, 0)]) (\<lambda>i. (0, 0)) (\<lambda>i. (1, 1)) = Inr e0"
    and b: "run e0 [Step [(0, 3)], Reset, Step [(0, 1)]] = Inr e"
    and c: "step e [(0, 3)] = Inr (e', v)"
    and d: "agent_positions e 0 = Some (0, 0)" "agent_positions e' 0 = Some (0, 1)"
       "agent_positions (fst (reset e')) 0 = Some (0, 0)"
    by (auto split: sum.splits)
  from reset_step_frame[OF a b c] init_fields[OF a] a b c d show ?thesis
    by (intro exI[of _ e0] exI[of _ e] exI[of _ e'] exI[of _ v]) simp
qed

section \<open>Properties of the replay buffer\<close>

lemma pushes_snoc:
  "pushes b (ts @ [t]) = (case t of (s, a, r, s', d) \<Rightarrow> push (pushes b ts) s a r s' d)"
  by (simp add: pushes_def split: prod.splits)

lemma pushes_capacity: "capacity (pushes b ts) = capacity b"
  by (induction ts rule: rev_induct) (auto simp: pushes_snoc push_def pushes_def split: prod.splits)

lemma pushes_buffer:
  assumes "0 \<le> capacity b" "buffer b = []"
  shows "buffer (pushes b ts) = drop (length ts - nat (capacity b)) ts"
proof (induction ts rule: rev_induct)
  case Nil
  then show ?case using assms by (simp add: pushes_def)
next
  case (snoc t ts)
  obtain s a r s' d where t: "t = (s, a, r, s', d)" by (cases t) auto
  have "buffer (pushes b (ts @ [t])) =
          deque_append (capacity b) (drop (length ts - nat (capacity b)) ts) t"
    using snoc by (simp add: pushes_snoc t push_def pushes_capacity)
  also have "\<dots> = drop (length (ts @ [t]) - nat (capacity b)) (ts @ [t])"
  proof (cases "length ts < nat (capacity b)")
    case True
    then show ?thesis using assms(1) by (auto simp: deque_append_def Let_def)
  next
    case False
    show ?thesis
    proof (cases "nat (capacity b) = 0")
      case True
      then show ?thesis using assms(1) by (simp add: deque_append_def Let_def)
    next
      case pos: False
      with False have ne: "drop (length ts - nat (capacity b)) ts \<noteq> []" by simp
      have "tl (drop (length ts - nat (capacity b)) ts) = drop (Suc (length ts) - nat (capacity b)) ts"
        using False by (simp add: tl_drop drop_Suc Suc_diff_le)
      with ne False pos show ?thesis using assms(1)
        by (simp add: deque_append_def Let_def)
    qed
  qed
  finally show ?case .
qed

text \<open>
  C9. A buffer constructed with capacity \<open>c\<close> that receives \<open>c + 1\<close> transitions holds
  exactly \<open>c\<close> of them: the first one pushed is gone and the others are kept in the order
  of insertion. Whatever is pushed, the length never exceeds \<open>c\<close>.
\<close>

theorem replay_buffer_ring:
  assumes "ReplayBuffer_init c = Inr b"
    and "length ts = nat c + 1"
  shows "buffer (pushes b ts) = tl ts
     \<and> ReplayBuffer_len (pushes b ts) = nat c
     \<and> (\<forall>us. ReplayBuffer_len (pushes b us) \<le> nat c)"
proof -
  from assms(1) have b: "0 \<le> capacity b" "buffer b = []" "capacity b = c"
    by (auto simp: ReplayBuffer_init_def split: if_splits)
  have "buffer (pushes b ts) = tl ts"
    using pushes_buffer[OF b(1,2), of ts] assms(2) b(3) by (simp add: drop_Suc)
  moreover have "ReplayBuffer_len (pushes b us) \<le> nat c" for us
    using pushes_buffer[OF b(1,2), of us] b(3) by (simp add: ReplayBuffer_len_def)
  ultimately show ?thesis using assms(2) by (simp add: ReplayBuffer_len_def)
qed

theorem replay_buffer_ring_witness:
  "\<exists>b. ReplayBuffer_init 2 = Inr b
     \<and> buffer (pushes b [([0], 0, 1, [0], False), ([0], 1, 2, [1], False), ([1], 2, 3, [1], True)])
         = [([0], 1, 2, [1], False), ([1], 2, 3, [1], True)]
     \<and> ReplayBuffer_len (pushes b [([0], 0, 1, [0], False), ([0], 1, 2, [1], False), ([1], 2, 3, [1], True)]) = 2"
proof -
  have a: "ReplayBuffer_init 2 = Inr \<lparr> capacity = 2, buffer = [] \<rparr>"
    by (simp add: ReplayBuffer_init_def)
  from replay_buffer_ring[OF a, of "[([0], 0, 1, [0], False), ([0], 1, 2, [1], False), ([1], 2, 3, [1], True)]"]
  show ?thesis using a by simp
qed

section \<open>Properties of the collision arbitration\<close>

lemma swap_fold_subset:
  "fold (\<lambda>(i, j) S. if P i j then insert j (insert i S) else S) ps S0
     \<subseteq> S0 \<union> fst ` set ps \<union> snd ` set ps"
proof (induction ps arbitrary: S0)
  case Nil
  then show ?case by simp
next
  case (Cons p ps)
  obtain i j where p: "p = (i, j)" by (cases p)
  show ?case
  proof (cases "P i j")
    case True
    with Cons[of "insert j (insert i S0)"] p show ?thesis by auto
  next
    case False
    with Cons[of S0] p show ?thesis by auto
  qed
qed

lemma swap_fold_finite:
  "finite S0 \<Longrightarrow> finite (fold (\<lambda>(i, j) S. if P i j then insert j (insert i S) else S) ps S0)"
proof (induction ps arbitrary: S0)
  case Nil
  then show ?case by simp
next
  case (Cons p ps)
  obtain i j where p: "p = (i, j)" by (cases p)
  show ?case
  proof (cases "P i j")
    case True
    with Cons.IH[of "insert j (insert i S0)"] Cons.prems p show ?thesis by simp
  next
    case False
    with Cons.IH[of S0] Cons.prems p show ?thesis by simp
  qed
qed

lemma agent_pairs_bound: "(i, j) \<in> set (agent_pairs n) \<Longrightarrow> i < j \<and> j < n"
  by (auto simp: agent_pairs_def)

lemma swap_loop_bound:
  assumes "i \<in> swap_loop n old new"
  shows "i < n"
proof -
  from assms have "i \<in> fst ` set (agent_pairs n) \<union> snd ` set (agent_pairs n)"
    using swap_fold_subset[of "\<lambda>i j. new i = old j \<and> new j = old i" "agent_pairs n" "{}"]
    unfolding swap_loop_def by auto
  then obtain a b where "(a, b) \<in> set (agent_pairs n)" "i = a \<or> i = b" by auto
  with agent_pairs_bound[of a b n] show "i < n" by auto
qed

lemma swap_loop_finite: "finite (swap_loop n old new)"
  unfolding swap_loop_def by (rule swap_fold_finite) simp

lemma dd_append_members:
  "\<Union>(set ` snd ` set (dd_append d c i)) = insert i (\<Union>(set ` snd ` set d))"
  by (induction d c i rule: dd_append.induct) auto

lemma claimants_dd_append: "claimants (dd_append d c i) = insert i (claimants d)"
  unfolding claimants_def by (rule dd_append_members)

lemma group_step_members:
  "claimants (if x \<in> sb then d0 else case new x of None \<Rightarrow> d0 | Some c \<Rightarrow> dd_append d0 c x)
     \<subseteq> claimants d0 \<union> {i. i = x \<and> i \<notin> sb}"
  by (cases "x \<in> sb"; cases "new x") (simp_all add: claimants_dd_append)

lemma group_fold_members:
  "claimants (fold (\<lambda>i d. if i \<in> sb then d
              else case new i of None \<Rightarrow> d | Some c \<Rightarrow> dd_append d c i) xs d0)
           \<subseteq> claimants d0 \<union> {i. i \<in> set xs \<and> i \<notin> sb}"
proof (induction xs arbitrary: d0)
  case Nil
  then show ?case by simp
next
  case (Cons x xs)
  let ?d1 = "(if x \<in> sb then d0 else case new x of None \<Rightarrow> d0 | Some c \<Rightarrow> dd_append d0 c x)"
  have 1: "claimants ?d1 \<subseteq> claimants d0 \<union> {i. i = x \<and> i \<notin> sb}"
    by (rule group_step_members)
  have 2: "claimants (fold (\<lambda>i d. if i \<in> sb then d
              else case new i of None \<Rightarrow> d | Some c \<Rightarrow> dd_append d c i) (x # xs) d0)
        \<subseteq> claimants ?d1 \<union> {i. i \<in> set xs \<and> i \<notin> sb}"
    using Cons.IH[of ?d1] by (simp only: fold_simps)
  have 3: "claimants d0 \<union> {i. i = x \<and> i \<notin> sb} \<union> {i. i \<in> set xs \<and> i \<notin> sb}
         \<subseteq> claimants d0 \<union> {i. i \<in> set (x # xs) \<and> i \<notin> sb}"
    by auto
  from 1 2 3 show ?case by blast
qed
lemma group_loop_members:
  assumes "(c, agents) \<in> set (group_loop n new sb)" and "a \<in> set agents"
  shows "a < n \<and> a \<notin> sb"
proof -
  from assms have "a \<in> claimants (group_loop n new sb)"
    unfolding claimants_def by force
  moreover have "claimants (group_loop n new sb) \<subseteq> claimants [] \<union> {i. i \<in> set [0..<n] \<and> i \<notin> sb}"
    unfolding group_loop_def by (rule group_fold_members)
  ultimately show ?thesis by (auto simp: claimants_def)
qed

lemma collision_fold_subset:
  "fold (\<lambda>(c, agents) S. if length agents > 1 then fold insert agents S else S) d S0
     \<subseteq> S0 \<union> claimants d"
proof (induction d arbitrary: S0)
  case Nil
  then show ?case by simp
next
  case (Cons p d)
  obtain c agents where p: "p = (c, agents)" by (cases p)
  have f: "fold insert agents S0 = set agents \<union> S0"
    by (simp add: union_set_fold)
  have cl: "claimants (p # d) = set agents \<union> claimants d"
    by (simp add: claimants_def p)
  show ?case
  proof (cases "length agents > 1")
    case True
    then have "fold (\<lambda>(c, agents) S. if length agents > 1 then fold insert agents S else S) (p # d) S0
        = fold (\<lambda>(c, agents) S. if length agents > 1 then fold insert agents S else S) d (set agents \<union> S0)"
      by (simp add: p f)
    with Cons[of "set agents \<union> S0"] cl show ?thesis by blast
  next
    case False
    then have "fold (\<lambda>(c, agents) S. if length agents > 1 then fold insert agents S else S) (p # d) S0
        = fold (\<lambda>(c, agents) S. if length agents > 1 then fold insert agents S else S) d S0"
      by (simp add: p)
    with Cons[of S0] cl show ?thesis by blast
  qed
qed

lemma collision_fold_finite:
  "finite S0 \<Longrightarrow>
   finite (fold (\<lambda>(c, agents) S. if length agents > 1 then fold insert agents S else S)
             (d :: (cell \<times> nat list) list) S0)"
proof (induction d arbitrary: S0)
  case Nil
  then show ?case by simp
next
  case (Cons p d)
  obtain c agents where p: "p = (c, agents)" by (cases p)
  have f: "fold insert agents S0 = set agents \<union> S0"
    by (simp add: union_set_fold)
  show ?case
  proof (cases "length agents > 1")
    case True
    with Cons.IH[of "set agents \<union> S0"] Cons.prems p f show ?thesis by simp
  next
    case False
    with Cons.IH[of S0] Cons.prems p show ?thesis by simp
  qed
qed

lemma collision_loop_members:
  assumes "a \<in> collision_loop (group_loop n new sb)"
  shows "a < n \<and> a \<notin> sb"
proof -
  from assms have "a \<in> claimants (group_loop n new sb)"
    using collision_fold_subset[of "group_loop n new sb" "{}"]
    unfolding collision_loop_def by auto
  then obtain c agents where "(c, agents) \<in> set (group_loop n new sb)" "a \<in> set agents"
    unfolding claimants_def by auto
  then show ?thesis by (rule group_loop_members)
qed

lemma collision_loop_finite: "finite (collision_loop d)"
  unfolding collision_loop_def by (rule collision_fold_finite) simp

text \<open>
  C5. In a call of \<open>step\<close> that returns, no agent is in both the swap-block set and the
  same-cell-block set, every agent in either set ends the step on the cell it started from,
  and the returned collision count is the sum of the sizes of the two (finite) sets.
\<close>

theorem step_collision_sets:
  assumes "step e acts = Inr (e', v)"
  shows "swap_blocked v \<inter> collision_blocked v = {}
     \<and> finite (swap_blocked v) \<and> finite (collision_blocked v)
     \<and> (\<forall>i \<in> swap_blocked v \<union> collision_blocked v.
           i < num_agents e \<and> agent_positions e' i = agent_positions e i)
     \<and> num_collisions v = card (swap_blocked v) + card (collision_blocked v)"
proof -
  note s = step_Inr[OF assms]
  have cb: "a < num_agents e \<and> a \<notin> swap_blocked v" if "a \<in> collision_blocked v" for a
    using that collision_loop_members[of a "num_agents e" "new_positions v" "swap_blocked v"]
    by (simp add: s(4,5))
  have sb: "a < num_agents e" if "a \<in> swap_blocked v" for a
    using that swap_loop_bound by (simp add: s(3))
  have keep: "agent_positions e' i = agent_positions e i"
    if "i \<in> swap_blocked v \<union> collision_blocked v" for i
  proof -
    from that sb cb have "i < num_agents e" by auto
    with that show ?thesis by (simp add: s(8) s(6) s(1) final_loop_def)
  qed
  show ?thesis
    using cb sb keep s(7)
    by (auto simp: s(3) s(5) swap_loop_finite collision_loop_finite)
qed

theorem step_collision_sets_witness:
  "\<exists>e e' v.
     TrafficRoutingEnv_init (3, 3) 4 None (\<lambda>i. [(0, 0), (0, 1), (2, 0), (2, 2)] ! i)
        (\<lambda>i. [(1, 1), (1, 1), (1, 1), (1, 1)] ! i) = Inr e
   \<and> step e [(0, 3), (1, 2), (2, 3), (3, 2)] = Inr (e', v)
   \<and> swap_blocked v = {0, 1} \<and> collision_blocked v = {2, 3}
   \<and> swap_blocked v \<inter> collision_blocked v = {}
   \<and> num_collisions v = 4
   \<and> agent_positions e' 0 = Some (0, 0) \<and> agent_positions e' 1 = Some (0, 1)
   \<and> agent_positions e' 2 = Some (2, 0) \<and> agent_positions e' 3 = Some (2, 2)"
proof -
  have "case TrafficRoutingEnv_init (3, 3) 4 None (\<lambda>i. [(0, 0), (0, 1), (2, 0), (2, 2)] ! i)
                (\<lambda>i. [(1, 1), (1, 1), (1, 1), (1, 1)] ! i) of
          Inl _ \<Rightarrow> False
        | Inr e \<Rightarrow> (case step e [(0, 3), (1, 2), (2, 3), (3, 2)] of
            Inl _ \<Rightarrow> False
          | Inr (e', v) \<Rightarrow> swap_blocked v = {0, 1} \<and> collision_blocked v = {2, 3}
              \<and> num_collisions v = 4
              \<and> agent_positions e' 0 = Some (0, 0) \<and> agent_positions e' 1 = Some (0, 1)
              \<and> agent_positions e' 2 = Some (2, 0) \<and> agent_positions e' 3 = Some (2, 2))"
    by code_simp
  then obtain e e' v where
    a: "TrafficRoutingEnv_init (3, 3) 4 None (\<lambda>i. [(0, 0), (0, 1), (2, 0), (2, 2)] ! i)
          (\<lambda>i. [(1, 1), (1, 1), (1, 1), (1, 1)] ! i) = Inr e"
    and b: "step e [(0, 3), (1, 2), (2, 3), (3, 2)] = Inr (e', v)"
    and c: "swap_blocked v = {0, 1}" "collision_blocked v = {2, 3}" "num_collisions v = 4"
      "agent_positions e' 0 = Some (0, 0)" "agent_positions e' 1 = Some (0, 1)"
      "agent_positions e' 2 = Some (2, 0)" "agent_positions e' 3 = Some (2, 2)"
    by (auto split: sum.splits)
  from step_collision_sets[OF b] a b c show ?thesis
    by (intro exI[of _ e] exI[of _ e'] exI[of _ v]) simp
qed

section \<open>Rewards and the arrival latch\<close>

lemma step_Inr_latch:
  assumes "step e acts = Inr (e', v)" and "i < num_agents e"
    and "agent_positions e' i = destinations e i"
  shows "arrived e i \<noteq> None"
proof -
  from assms(1) have
    "\<forall>i < num_agents e. agent_positions e' i = destinations e i \<longrightarrow> arrived e i \<noteq> None"
    by (auto simp: step_def Let_def list_all_iff split: if_splits sum.splits)
  with assms(2,3) show ?thesis by blast
qed

lemma step_raw_cases:
  assumes "step e acts = Inr (e', v)" and "i < num_agents e"
  shows "agent_positions e' i = destinations e i \<Longrightarrow> arrived e i = Some False \<Longrightarrow>
           raw_rewards v i = Some 10 \<and> arrived e' i = Some True"
    and "agent_positions e' i = destinations e i \<Longrightarrow> arrived e i \<noteq> Some False \<Longrightarrow>
           raw_rewards v i = Some 0 \<and> arrived e i = Some True \<and> arrived e' i = Some True"
    and "agent_positions e' i \<noteq> destinations e i \<Longrightarrow>
           raw_rewards v i = Some (- 1) \<and> arrived e' i = arrived e i"
  using assms(2) step_Inr_latch[OF assms]
  by (auto simp: step_Inr(15,16)[OF assms(1)] raw_loop_def arrived_loop_def)

lemma step_latch_mono:
  assumes "step e acts = Inr (e', v)" and "arrived e i = Some True"
  shows "arrived e' i = Some True"
  using assms step_Inr(15)[OF assms(1)] by (simp add: arrived_loop_def)

lemma step_ten_iff:
  assumes "step e acts = Inr (e', v)" and "i < num_agents e"
  shows "raw_rewards v i = Some 10 \<longleftrightarrow>
           agent_positions e' i = destinations e i \<and> arrived e i = Some False"
  using step_raw_cases[OF assms] by (cases "agent_positions e' i = destinations e i"; cases "arrived e i = Some False") auto

lemma episode_num_agents:
  "episode e as = Inr tr \<Longrightarrow> (e', v) \<in> set tr \<Longrightarrow> num_agents e' = num_agents e"
proof (induction as arbitrary: e tr)
  case Nil
  then show ?case by simp
next
  case (Cons a as)
  from Cons.prems(1) obtain e1 v1 tr1 where s: "step e a = Inr (e1, v1)"
    and r: "episode e1 as = Inr tr1" and tr: "tr = (e1, v1) # tr1"
    by (auto split: sum.splits)
  from Cons.prems(2) tr consider "(e', v) = (e1, v1)" | "(e', v) \<in> set tr1" by auto
  then show ?case
  proof cases
    case 1
    with step_Inr(14)[OF s] show ?thesis by simp
  next
    case 2
    from Cons.IH[OF r 2] step_Inr(14)[OF s] show ?thesis by simp
  qed
qed

lemma episode_latched_no_ten:
  "episode e as = Inr tr \<Longrightarrow> i < num_agents e \<Longrightarrow> arrived e i = Some True \<Longrightarrow>
     filter (\<lambda>(e', v). raw_rewards v i = Some 10) tr = []"
proof (induction as arbitrary: e tr)
  case Nil
  then show ?case by simp
next
  case (Cons a as)
  from Cons.prems(1) obtain e1 v1 tr1 where s: "step e a = Inr (e1, v1)"
    and r: "episode e1 as = Inr tr1" and tr: "tr = (e1, v1) # tr1"
    by (auto split: sum.splits)
  have n1: "i < num_agents e1" using step_Inr(14)[OF s] Cons.prems(2) by simp
  have "raw_rewards v1 i \<noteq> Some 10"
    using step_ten_iff[OF s Cons.prems(2)] Cons.prems(3) by simp
  moreover have "filter (\<lambda>(e', v). raw_rewards v i = Some 10) tr1 = []"
    using Cons.IH[OF r n1 step_latch_mono[OF s Cons.prems(3)]] .
  ultimately show ?case by (simp add: tr)
qed

lemma episode_ten_once:
  "episode e as = Inr tr \<Longrightarrow> i < num_agents e \<Longrightarrow>
     length (filter (\<lambda>(e', v). raw_rewards v i = Some 10) tr) \<le> 1"
proof (induction as arbitrary: e tr)
  case Nil
  then show ?case by simp
next
  case (Cons a as)
  from Cons.prems(1) obtain e1 v1 tr1 where s: "step e a = Inr (e1, v1)"
    and r: "episode e1 as = Inr tr1" and tr: "tr = (e1, v1) # tr1"
    by (auto split: sum.splits)
  have n1: "i < num_agents e1" using step_Inr(14)[OF s] Cons.prems(2) by simp
  show ?case
  proof (cases "raw_rewards v1 i = Some 10")
    case True
    then have "arrived e1 i = Some True"
      using step_ten_iff[OF s Cons.prems(2)] step_raw_cases(1)[OF s Cons.prems(2)] by simp
    from episode_latched_no_ten[OF r n1 this] True show ?thesis by (simp add: tr)
  next
    case False
    with Cons.IH[OF r n1] show ?thesis by (simp add: tr)
  qed
qed

text \<open>
  C6. In a call of \<open>step\<close> that returns, an agent that ends on its destination has raw reward
  10 when its latch was false, and the latch is then true; it has raw reward 0 when its latch
  was already true; an agent that does not end on its destination has raw reward -1.
  Over the consecutive steps of an episode the raw reward 10 occurs at most once per agent.
\<close>

theorem step_raw_rewards:
  assumes "step e acts = Inr (e', v)"
    and "episode e as = Inr tr"
    and "i < num_agents e"
  shows "(if agent_positions e' i = destinations e i
          then (if arrived e i = Some False
                then raw_rewards v i = Some 10 \<and> arrived e' i = Some True
                else raw_rewards v i = Some 0 \<and> arrived e i = Some True)
          else raw_rewards v i = Some (- 1))
     \<and> length (filter (\<lambda>(e', v). raw_rewards v i = Some 10) tr) \<le> 1"
  using step_raw_cases[OF assms(1,3)] episode_ten_once[OF assms(2,3)]
  by simp

theorem step_raw_rewards_witness:
  "\<exists>e e1 v1 tr.
     TrafficRoutingEnv_init (2, 2) 2 None (\<lambda>i. [(0, 0), (1, 0)] ! i) (\<lambda>i. [(0, 1), (0, 0)] ! i) = Inr e
   \<and> step e [(0, 3), (1, 4)] = Inr (e1, v1)
   \<and> episode e [[(0, 3), (1, 4)], [(0, 2), (1, 0)], [(0, 4), (1, 4)]] = Inr tr
   \<and> raw_rewards v1 0 = Some 10 \<and> raw_rewards v1 1 = Some (- 1) \<and> arrived e1 0 = Some True
   \<and> map (\<lambda>(e', v). raw_rewards v 0) tr = [Some 10, Some 0, Some 0]
   \<and> map (\<lambda>(e', v). raw_rewards v 1) tr = [Some (- 1), Some 10, Some 0]
   \<and> length (filter (\<lambda>(e', v). raw_rewards v 0 = Some 10) tr) \<le> 1"
proof -
  have "case TrafficRoutingEnv_init (2, 2) 2 None (\<lambda>i. [(0, 0), (1, 0)] ! i) (\<lambda>i. [(0, 1), (0, 0)] ! i) of
          Inl _ \<Rightarrow> False
        | Inr e \<Rightarrow> (case step e [(0, 3), (1, 4)] of
            Inl _ \<Rightarrow> False
          | Inr (e1, v1) \<Rightarrow>
             (case episode e [[(0, 3), (1, 4)], [(0, 2), (1, 0)], [(0, 4), (1, 4)]] of
                Inl _ \<Rightarrow> False
              | Inr tr \<Rightarrow> raw_rewards v1 0 = Some 10 \<and> raw_rewards v1 1 = Some (- 1)
                  \<and> map (\<lambda>(e', v). raw_rewards v 0) tr = [Some 10, Some 0, Some 0]
                  \<and> map (\<lambda>(e', v). raw_rewards v 1) tr = [Some (- 1), Some 10, Some 0]))"
    by code_simp
  then obtain e e1 v1 tr where
    a: "TrafficRoutingEnv_init (2, 2) 2 None (\<lambda>i. [(0, 0), (1, 0)] ! i) (\<lambda>i. [(0, 1), (0, 0)] ! i) = Inr e"
    and b: "step e [(0, 3), (1, 4)] = Inr (e1, v1)"
    and c: "episode e [[(0, 3), (1, 4)], [(0, 2), (1, 0)], [(0, 4), (1, 4)]] = Inr tr"
    and d: "raw_rewards v1 0 = Some 10" "raw_rewards v1 1 = Some (- 1)"
      "map (\<lambda>(e', v). raw_rewards v 0) tr = [Some 10, Some 0, Some 0]"
      "map (\<lambda>(e', v). raw_rewards v 1) tr = [Some (- 1), Some 10, Some 0]"
    by (auto split: sum.splits)
  have n: "0 < num_agents e" using init_fields(2)[OF a] by simp
  note t = step_raw_rewards[OF b c n]
  from t have once: "length (filter (\<lambda>(e', v). raw_rewards v 0 = Some 10) tr) \<le> 1"
    by (rule conjunct2)
  have latch: "arrived e1 0 = Some True"
  proof (cases "agent_positions e1 0 = destinations e 0")
    case True
    with t d(1) show ?thesis by (cases "arrived e 0 = Some False") simp_all
  next
    case False
    with t d(1) show ?thesis by simp
  qed
  from a b c d once latch show ?thesis
    by (intro exI[of _ e] exI[of _ e1] exI[of _ v1] exI[of _ tr]) simp
qed

subsection \<open>The latch freezes an agent\<close>

lemma desired_positions_frozen:
  "desired_positions e old acts new0 = Inr new \<Longrightarrow> arrived_get e i \<Longrightarrow>
     new0 i = None \<or> new0 i = old i \<Longrightarrow> new i = None \<or> new i = old i"
proof (induction acts arbitrary: new0)
  case Nil
  then show ?case by simp
next
  case (Cons a acts)
  obtain j action where a: "a = (j, action)" by (cases a)
  from Cons.prems(1) a obtain p where p: "old j = Some p" by (auto split: option.splits)
  let ?n1 = "if arrived_get e j then new0(j \<mapsto> p) else new0(j \<mapsto> desired_cell e p action)"
  from Cons.prems(1) a p have r: "desired_positions e old acts ?n1 = Inr new"
    by (simp split: if_splits)
  have "?n1 i = None \<or> ?n1 i = old i"
    using Cons.prems(2,3) p by (cases "i = j") auto
  from Cons.IH[OF r Cons.prems(2) this] show ?case .
qed

lemma step_frozen:
  assumes "step e acts = Inr (e', v)" and "i < num_agents e" and "arrived e i = Some True"
  shows "agent_positions e' i = agent_positions e i" and "arrived e' i = Some True"
proof -
  note s = step_Inr[OF assms(1)]
  have g: "arrived_get e i" using assms(3) by (simp add: arrived_get_def)
  from s(18) assms(2) have ne: "new_positions v i \<noteq> None" by (auto simp: list_all_iff)
  from desired_positions_frozen[OF s(2) g, of] ne
  have "new_positions v i = old_positions v i" by auto
  with assms(2) show "agent_positions e' i = agent_positions e i"
    by (simp add: s(8) s(1) final_loop_def)
  show "arrived e' i = Some True"
    using assms(3) by (simp add: s(15) arrived_loop_def)
qed

lemma step_latch_inv:
  assumes "step e acts = Inr (e', v)" and "latch_inv e"
  shows "latch_inv e'"
  unfolding latch_inv_def
proof (intro allI impI)
  fix i assume i: "i < num_agents e'" and t: "arrived e' i = Some True"
  note s = step_Inr[OF assms(1)]
  from i s(14) have i': "i < num_agents e" by simp
  show "agent_positions e' i = destinations e' i"
  proof (cases "arrived e i = Some True")
    case True
    with step_frozen(1)[OF assms(1) i' True] assms(2) i' show ?thesis
      by (simp add: latch_inv_def s(12))
  next
    case False
    with t i' show ?thesis
      by (auto simp: s(15) s(12) arrived_loop_def split: if_splits)
  qed
qed

lemma episode_latch_inv:
  "episode e as = Inr tr \<Longrightarrow> latch_inv e \<Longrightarrow>
     latch_inv (env_after e tr) \<and> num_agents (env_after e tr) = num_agents e
     \<and> destinations (env_after e tr) = destinations e"
proof (induction as arbitrary: e tr)
  case Nil
  then show ?case by (simp add: env_after_def)
next
  case (Cons a as)
  from Cons.prems(1) obtain e1 v1 tr1 where s: "step e a = Inr (e1, v1)"
    and r: "episode e1 as = Inr tr1" and tr: "tr = (e1, v1) # tr1"
    by (auto split: sum.splits)
  have ea: "env_after e tr = env_after e1 tr1"
    by (simp add: env_after_def tr)
  from Cons.IH[OF r step_latch_inv[OF s Cons.prems(2)]] step_Inr(12,14)[OF s]
  show ?case by (simp add: ea)
qed

lemma reset_latch_inv: "latch_inv (fst (reset e))"
  by (simp add: latch_inv_def reset_fields)

text \<open>
  C7. Within an episode, that is after a \<open>reset\<close> and any number of \<open>step\<close> calls, a latch that
  is true stays true in the next step, and the agent's position after that step is still its
  destination, whatever action is supplied for it.
\<close>

theorem latch_monotone_frozen:
  assumes "episode (fst (reset e0)) as = Inr tr"
    and "step (env_after (fst (reset e0)) tr) acts = Inr (e', v)"
    and "i < num_agents e0"
    and "arrived (env_after (fst (reset e0)) tr) i = Some True"
  shows "arrived e' i = Some True
     \<and> agent_positions (env_after (fst (reset e0)) tr) i = destinations e0 i
     \<and> agent_positions e' i = destinations e0 i"
proof -
  let ?e = "env_after (fst (reset e0)) tr"
  from episode_latch_inv[OF assms(1) reset_latch_inv]
  have inv: "latch_inv ?e" and n: "num_agents ?e = num_agents e0"
    and d: "destinations ?e = destinations e0"
    by (simp_all add: reset_fields)
  from assms(3) n have i: "i < num_agents ?e" by simp
  from inv i assms(4) d have "agent_positions ?e i = destinations e0 i"
    by (simp add: latch_inv_def)
  with step_frozen[OF assms(2) i assms(4)] show ?thesis by simp
qed

theorem latch_monotone_frozen_witness:
  "\<exists>e0 tr e' v.
     TrafficRoutingEnv_init (2, 2) 2 None (\<lambda>i. [(0, 0), (1, 0)] ! i) (\<lambda>i. [(0, 1), (1, 1)] ! i) = Inr e0
   \<and> episode (fst (reset e0)) [[(0, 3), (1, 4)]] = Inr tr
   \<and> step (env_after (fst (reset e0)) tr) [(0, 1), (1, 0)] = Inr (e', v)
   \<and> arrived (env_after (fst (reset e0)) tr) 0 = Some True
   \<and> arrived e' 0 = Some True
   \<and> agent_positions e' 0 = Some (0, 1) \<and> destinations e0 0 = Some (0, 1)
   \<and> agent_positions e' 1 = Some (0, 0)"
proof -
  have "case TrafficRoutingEnv_init (2, 2) 2 None (\<lambda>i. [(0, 0), (1, 0)] ! i) (\<lambda>i. [(0, 1), (1, 1)] ! i) of
          Inl _ \<Rightarrow> False
        | Inr e0 \<Rightarrow> (case episode (fst (reset e0)) [[(0, 3), (1, 4)]] of
            Inl _ \<Rightarrow> False
          | Inr tr \<Rightarrow>
             (case step (env_after (fst (reset e0)) tr) [(0, 1), (1, 0)] of
                Inl _ \<Rightarrow> False
              | Inr (e', v) \<Rightarrow> arrived (env_after (fst (reset e0)) tr) 0 = Some True
                  \<and> destinations e0 0 = Some (0, 1) \<and> agent_positions e' 1 = Some (0, 0)))"
    by code_simp
  then obtain e0 tr e' v where
    a: "TrafficRoutingEnv_init (2, 2) 2 None (\<lambda>i. [(0, 0), (1, 0)] ! i) (\<lambda>i. [(0, 1), (1, 1)] ! i) = Inr e0"
    and b: "episode (fst (reset e0)) [[(0, 3), (1, 4)]] = Inr tr"
    and c: "step (env_after (fst (reset e0)) tr) [(0, 1), (1, 0)] = Inr (e', v)"
    and d: "arrived (env_after (fst (reset e0)) tr) 0 = Some True"
      "destinations e0 0 = Some (0, 1)" "agent_positions e' 1 = Some (0, 0)"
    by (auto split: sum.splits)
  have n: "0 < num_agents e0" using init_fields(2)[OF a] by simp
  from latch_monotone_frozen[OF b c n d(1)] a b c d show ?thesis
    by (intro exI[of _ e0] exI[of _ tr] exI[of _ e'] exI[of _ v]) simp
qed

subsection \<open>Positions stay on the grid and off the obstacles\<close>

lemma move_in_grid: "in_grid gs p \<Longrightarrow> in_grid gs (move gs p a)"
  by (auto simp: in_grid_def move_def Let_def)

lemma desired_cell_legal: "legal_cell e p \<Longrightarrow> legal_cell e (desired_cell e p a)"
  by (auto simp: legal_cell_def desired_cell_def Let_def move_in_grid)

lemma desired_positions_legal:
  "desired_positions e old acts new0 = Inr new \<Longrightarrow>
   (\<And>c. new0 i = Some c \<Longrightarrow> legal_cell e c) \<Longrightarrow>
   (\<And>p. old i = Some p \<Longrightarrow> legal_cell e p) \<Longrightarrow>
   new i = Some c \<Longrightarrow> legal_cell e c"
proof (induction acts arbitrary: new0)
  case Nil
  then show ?case by simp
next
  case (Cons a acts)
  obtain j action where a: "a = (j, action)" by (cases a)
  from Cons.prems(1) a obtain p where p: "old j = Some p" by (auto split: option.splits)
  let ?n1 = "if arrived_get e j then new0(j \<mapsto> p) else new0(j \<mapsto> desired_cell e p action)"
  from Cons.prems(1) a p have r: "desired_positions e old acts ?n1 = Inr new"
    by (simp split: if_splits)
  have "legal_cell e c'" if "?n1 i = Some c'" for c'
  proof (cases "i = j")
    case True
    with p Cons.prems(3) have "legal_cell e p" by simp
    with that True show ?thesis by (auto simp: desired_cell_legal split: if_splits)
  next
    case False
    with that Cons.prems(2) show ?thesis by (auto split: if_splits)
  qed
  from Cons.IH[OF r this Cons.prems(3) Cons.prems(4)] show ?case by simp
qed

lemma step_Inr_keys:
  assumes "step e acts = Inr (e', v)" and "i < num_agents e"
  shows "agent_positions e i \<noteq> None" "new_positions v i \<noteq> None" "destinations e i \<noteq> None"
  using step_Inr(18)[OF assms(1)] assms(2) by (simp_all add: list_all_iff)

lemma step_positions_legal:
  assumes "step e acts = Inr (e', v)" and "positions_legal e"
  shows "positions_legal e'"
  unfolding positions_legal_def
proof (intro allI impI)
  fix i assume i: "i < num_agents e'"
  note s = step_Inr[OF assms(1)]
  from i s(14) have i': "i < num_agents e" by simp
  have lc: "legal_cell e' c = legal_cell e c" for c
    by (simp add: legal_cell_def s(10,11))
  from assms(2) i' obtain p q where p: "agent_positions e i = Some p" "legal_cell e p"
    and q: "initial_positions e i = Some q" "legal_cell e q"
    by (auto simp: positions_legal_def)
  from step_Inr_keys(2)[OF assms(1) i'] obtain c where c: "new_positions v i = Some c" by blast
  have "legal_cell e c"
  proof (rule desired_positions_legal[OF s(2) _ _ c])
    show "legal_cell e c'" if "Map.empty i = Some c'" for c' using that by simp
    show "legal_cell e p'" if "old_positions v i = Some p'" for p'
      using that p i' by (simp add: s(1))
  qed
  with p c i' have "\<exists>c. agent_positions e' i = Some c \<and> legal_cell e' c"
    by (cases "i \<in> blocked v") (simp_all add: s(8) s(1) final_loop_def lc)
  moreover from q have "\<exists>c. initial_positions e' i = Some c \<and> legal_cell e' c"
    by (simp add: s(13) lc)
  ultimately show "(\<exists>c. agent_positions e' i = Some c \<and> legal_cell e' c) \<and>
        (\<exists>c. initial_positions e' i = Some c \<and> legal_cell e' c)" by simp
qed

lemma reset_positions_legal: "positions_legal e \<Longrightarrow> positions_legal (fst (reset e))"
  by (simp add: positions_legal_def reset_fields legal_cell_def)

lemma run_positions_legal:
  "run e0 cs = Inr e \<Longrightarrow> positions_legal e0 \<Longrightarrow> positions_legal e"
proof (induction cs arbitrary: e0)
  case Nil
  then show ?case by simp
next
  case (Cons c cs)
  show ?case
  proof (cases c)
    case Reset
    with Cons.prems have "run (fst (reset e0)) cs = Inr e"
      by (simp split: sum.splits)
    from Cons.IH[OF this reset_positions_legal[OF Cons.prems(2)]] show ?thesis .
  next
    case (Step acts)
    with Cons.prems obtain e1 v where s: "step e0 acts = Inr (e1, v)" and r: "run e1 cs = Inr e"
      by (auto split: sum.splits)
    from Cons.IH[OF r step_positions_legal[OF s Cons.prems(2)]] show ?thesis .
  qed
qed

lemma check_agents_None:
  "check_agents ob ini dst is = None \<Longrightarrow> i \<in> set is \<Longrightarrow> Some ob \<noteq> ini i \<and> Some ob \<noteq> dst i"
  by (induction "is") (auto split: if_splits)

lemma check_obstacles_None:
  "check_obstacles ini dst n obs = None \<Longrightarrow> ob \<in> set obs \<Longrightarrow> i < n \<Longrightarrow>
     Some ob \<noteq> ini i \<and> Some ob \<noteq> dst i"
proof (induction obs)
  case Nil
  then show ?case by simp
next
  case (Cons o' obs)
  from Cons.prems(1) have a: "check_agents o' ini dst [0..<n] = None"
    and b: "check_obstacles ini dst n obs = None"
    by (auto split: option.splits)
  show ?case
  proof (cases "ob = o'")
    case True
    with check_agents_None[OF a, of i] Cons.prems(3) show ?thesis by simp
  next
    case False
    with Cons.prems(2) have "ob \<in> set obs" by simp
    from Cons.IH[OF b this Cons.prems(3)] show ?thesis .
  qed
qed

lemma init_positions_legal:
  assumes "TrafficRoutingEnv_init gs n ob starts goals = Inr e0"
    and "drawn_in_grid gs n starts"
  shows "positions_legal e0"
  unfolding positions_legal_def
proof (intro allI impI)
  fix i assume "i < num_agents e0"
  note f = init_fields[OF assms(1)]
  from \<open>i < num_agents e0\<close> f(2) have i: "i < n" by simp
  from assms(2) i have g: "in_grid gs (starts i)"
    by (simp add: drawn_in_grid_def list_all_iff)
  have "starts i \<notin> set (obstacles e0)"
  proof
    assume "starts i \<in> set (obstacles e0)"
    from check_obstacles_None[OF f(9) this i] i show False by (simp add: f(4))
  qed
  with g i have "initial_positions e0 i = Some (starts i) \<and> legal_cell e0 (starts i)"
    by (simp add: f(4) f(1) legal_cell_def)
  then show "(\<exists>c. agent_positions e0 i = Some c \<and> legal_cell e0 c) \<and>
        (\<exists>c. initial_positions e0 i = Some c \<and> legal_cell e0 c)"
    by (simp add: f(6))
qed

subsection \<open>Well-formed calls return\<close>

lemma desired_positions_total:
  "\<forall>i \<in> fst ` set acts. old i \<noteq> None \<Longrightarrow>
     \<exists>new. desired_positions e old acts new0 = Inr new
        \<and> (\<forall>i. new i \<noteq> None \<longleftrightarrow> new0 i \<noteq> None \<or> i \<in> fst ` set acts)"
proof (induction acts arbitrary: new0)
  case Nil
  then show ?case by simp
next
  case (Cons a acts)
  obtain j action where a: "a = (j, action)" by (cases a)
  from Cons.prems a obtain p where p: "old j = Some p" by auto
  let ?n1 = "if arrived_get e j then new0(j \<mapsto> p) else new0(j \<mapsto> desired_cell e p action)"
  have "\<exists>new. desired_positions e old acts ?n1 = Inr new
        \<and> (\<forall>i. new i \<noteq> None \<longleftrightarrow> ?n1 i \<noteq> None \<or> i \<in> fst ` set acts)"
    by (rule Cons.IH) (use Cons.prems in auto)
  then obtain new where n: "desired_positions e old acts ?n1 = Inr new"
    and d: "\<And>i. new i \<noteq> None \<longleftrightarrow> ?n1 i \<noteq> None \<or> i \<in> fst ` set acts"
    by blast
  have "desired_positions e old (a # acts) new0 = Inr new"
    using n p a by (simp split: if_splits)
  moreover have "new i \<noteq> None \<longleftrightarrow> new0 i \<noteq> None \<or> i \<in> fst ` set (a # acts)" for i
    using d[of i] a by (cases "i = j") (auto split: if_splits)
  ultimately show ?case by blast
qed

lemma step_total:
  assumes "keys_present e" and "well_formed_actions (num_agents e) acts"
  shows "\<exists>e' v. step e acts = Inr (e', v)"
proof -
  let ?n = "num_agents e"
  let ?old = "\<lambda>i. if i < ?n then agent_positions e i else None"
  from assms(1) have k: "\<And>i. i < ?n \<Longrightarrow> agent_positions e i \<noteq> None \<and>
      destinations e i \<noteq> None \<and> arrived e i \<noteq> None"
    by (simp add: keys_present_def)
  from assms(2) have w: "fst ` set acts = {i. i < ?n}"
    by (auto simp: well_formed_actions_def)
  have old_ok: "\<forall>i \<in> fst ` set acts. ?old i \<noteq> None"
    using w k by auto
  from desired_positions_total[OF old_ok, of e Map.empty]
  obtain new where n: "desired_positions e ?old acts Map.empty = Inr new"
    and d: "\<And>i. new i \<noteq> None \<longleftrightarrow> i \<in> fst ` set acts"
    by auto
  have c1: "list_all (\<lambda>i. agent_positions e i \<noteq> None) [0..<?n]"
    using k by (simp add: list_all_iff)
  have c2: "list_all (\<lambda>i. new i \<noteq> None) [0..<?n]"
    using d w by (simp add: list_all_iff)
  let ?sb = "swap_loop ?n ?old new"
  let ?cb = "collision_loop (group_loop ?n new ?sb)"
  let ?e1 = "e \<lparr> agent_positions := final_loop ?n ?old new (?sb \<union> ?cb), steps := steps e + 1 \<rparr>"
  have c3: "list_all (\<lambda>i. destinations ?e1 i \<noteq> None \<and>
              (if agent_positions ?e1 i = destinations ?e1 i then arrived ?e1 i \<noteq> None else True))
              [0..<?n]"
    using k by (simp add: list_all_iff)
  have fin: "final_loop ?n ?old new (?sb \<union> ?cb) i \<noteq> None" if "i < ?n" for i
    using that k[OF that] d[of i] w by (simp add: final_loop_def)
  have c4: "\<exists>obs. get_observations (?e1 \<lparr> arrived := arrived_loop ?e1 \<rparr>) = Inr obs"
    using fin k by (simp add: get_observations_def list_all_iff)
  then obtain obs where o: "get_observations (?e1 \<lparr> arrived := arrived_loop ?e1 \<rparr>) = Inr obs" ..
  show ?thesis
    unfolding step_def Let_def using c1 c2 c3 n o by simp
qed

lemma step_keys_present:
  assumes "step e acts = Inr (e', v)" and "keys_present e"
  shows "keys_present e'"
  unfolding keys_present_def
proof (intro allI impI)
  fix i assume i: "i < num_agents e'"
  note s = step_Inr[OF assms(1)]
  from i s(14) have i': "i < num_agents e" by simp
  from assms(2) i' have k: "agent_positions e i \<noteq> None" "initial_positions e i \<noteq> None"
    "destinations e i \<noteq> None" "arrived e i \<noteq> None"
    by (simp_all add: keys_present_def)
  have "agent_positions e' i \<noteq> None"
    using i' k(1) step_Inr_keys(2)[OF assms(1) i']
    by (cases "i \<in> blocked v") (simp_all add: s(8) s(1) final_loop_def)
  moreover have "arrived e' i \<noteq> None"
    using k(4) by (auto simp: s(15) arrived_loop_def)
  ultimately show "agent_positions e' i \<noteq> None \<and> initial_positions e' i \<noteq> None \<and>
        destinations e' i \<noteq> None \<and> arrived e' i \<noteq> None"
    using k by (simp add: s(12,13))
qed

lemma reset_keys_present:
  assumes "keys_present e"
  shows "keys_present (fst (reset e))" and "\<exists>obs. snd (reset e) = Inr obs"
  using assms
  by (auto simp: keys_present_def reset_def Let_def get_observations_def list_all_iff)

lemma init_keys_present:
  assumes "TrafficRoutingEnv_init gs n ob starts goals = Inr e0"
  shows "keys_present e0"
  using init_fields[OF assms] by (simp add: keys_present_def)

lemma run_total:
  "keys_present e0 \<Longrightarrow> list_all (well_formed_call (num_agents e0)) cs \<Longrightarrow> \<exists>e. run e0 cs = Inr e"
proof (induction cs arbitrary: e0)
  case Nil
  then show ?case by simp
next
  case (Cons c cs)
  show ?case
  proof (cases c)
    case Reset
    from reset_keys_present[OF Cons.prems(1)] obtain obs where
      k: "keys_present (fst (reset e0))" and o: "snd (reset e0) = Inr obs" by blast
    from Cons.prems(2) have "list_all (well_formed_call (num_agents (fst (reset e0)))) cs"
      by (simp add: reset_fields)
    from Cons.IH[OF k this] o Reset show ?thesis by simp
  next
    case (Step acts)
    with Cons.prems(2) have "well_formed_actions (num_agents e0) acts" by simp
    from step_total[OF Cons.prems(1) this] obtain e1 v where s: "step e0 acts = Inr (e1, v)"
      by blast
    from Cons.prems(2) have "list_all (well_formed_call (num_agents e1)) cs"
      by (simp add: step_Inr(14)[OF s])
    from Cons.IH[OF step_keys_present[OF s Cons.prems(1)] this] s Step show ?thesis by simp
  qed
qed

text \<open>
  C4. After a successful construction (the drawn starts lie on the grid, as \<open>randint\<close>
  guarantees), every sequence of \<open>reset\<close> and \<open>step\<close> calls with well-formed action maps
  returns, and in every environment that a sequence of calls ends in, each agent's position
  lies within the grid bounds and is not an obstacle cell.
\<close>

theorem positions_stay_legal:
  assumes "TrafficRoutingEnv_init gs n ob starts goals = Inr e0"
    and "drawn_in_grid gs n starts"
    and "i < n"
  shows "(list_all (well_formed_call n) cs \<longrightarrow> (\<exists>e. run e0 cs = Inr e))
     \<and> (\<forall>e. run e0 cs = Inr e \<longrightarrow>
           (\<exists>r c. agent_positions e i = Some (r, c)
              \<and> 0 \<le> r \<and> r < fst gs \<and> 0 \<le> c \<and> c < snd gs
              \<and> (r, c) \<notin> set (obstacles e) \<and> obstacles e = obstacles e0))"
proof (intro conjI impI allI)
  note f = init_fields[OF assms(1)]
  show "\<exists>e. run e0 cs = Inr e" if "list_all (well_formed_call n) cs"
    using run_total[OF init_keys_present[OF assms(1)]] that f(2) by simp
  fix e assume r: "run e0 cs = Inr e"
  from run_positions_legal[OF r init_positions_legal[OF assms(1,2)]]
  have "positions_legal e" .
  moreover from run_frame[OF r] f have "num_agents e = n" "grid_size e = gs"
    "obstacles e = obstacles e0" by simp_all
  ultimately show "\<exists>r c. agent_positions e i = Some (r, c)
              \<and> 0 \<le> r \<and> r < fst gs \<and> 0 \<le> c \<and> c < snd gs
              \<and> (r, c) \<notin> set (obstacles e) \<and> obstacles e = obstacles e0"
    using assms(3) by (auto simp: positions_legal_def legal_cell_def in_grid_def)
qed

theorem positions_stay_legal_witness:
  "\<exists>e0 e.
     TrafficRoutingEnv_init (2, 3) 2 (Some [(0, 1)]) (\<lambda>i. [(0, 0), (1, 2)] ! i)
        (\<lambda>i. [(0, 2), (1, 0)] ! i) = Inr e0
   \<and> drawn_in_grid (2, 3) 2 (\<lambda>i. [(0, 0), (1, 2)] ! i)
   \<and> list_all (well_formed_call 2) [Step [(0, 3), (1, 3)], Step [(0, 1), (1, 0)], Reset, Step [(1, 2), (0, 0)]]
   \<and> run e0 [Step [(0, 3), (1, 3)], Step [(0, 1), (1, 0)], Reset, Step [(1, 2), (0, 0)]] = Inr e
   \<and> agent_positions e 0 = Some (0, 0) \<and> agent_positions e 1 = Some (1, 1)
   \<and> (\<exists>r c. agent_positions e 1 = Some (r, c) \<and> 0 \<le> r \<and> r < 2 \<and> 0 \<le> c \<and> c < 3
          \<and> (r, c) \<notin> set (obstacles e))"
proof -
  let ?cs = "[Step [(0, 3), (1, 3)], Step [(0, 1), (1, 0)], Reset, Step [(1, 2), (0, 0)]]"
  have "case TrafficRoutingEnv_init (2, 3) 2 (Some [(0, 1)]) (\<lambda>i. [(0, 0), (1, 2)] ! i)
               (\<lambda>i. [(0, 2), (1, 0)] ! i) of
          Inl _ \<Rightarrow> False
        | Inr e0 \<Rightarrow> (case run e0 [Step [(0, 3), (1, 3)], Step [(0, 1), (1, 0)], Reset, Step [(1, 2), (0, 0)]] of
            Inl _ \<Rightarrow> False
          | Inr e \<Rightarrow> agent_positions e 0 = Some (0, 0) \<and> agent_positions e 1 = Some (1, 1))"
    by code_simp
  then obtain e0 e where
    a: "TrafficRoutingEnv_init (2, 3) 2 (Some [(0, 1)]) (\<lambda>i. [(0, 0), (1, 2)] ! i)
          (\<lambda>i. [(0, 2), (1, 0)] ! i) = Inr e0"
    and b: "run e0 ?cs = Inr e"
    and c: "agent_positions e 0 = Some (0, 0)" "agent_positions e 1 = Some (1, 1)"
    by (auto split: sum.splits)
  have d: "drawn_in_grid (2, 3) 2 (\<lambda>i. [(0, 0), (1, 2)] ! i)"
    by code_simp
  have w: "list_all (well_formed_call 2) ?cs"
    by code_simp
  have i: "(1::nat) < 2" by simp
  from positions_stay_legal[OF a d i, of ?cs]
  have "\<forall>e. run e0 ?cs = Inr e \<longrightarrow>
           (\<exists>r c. agent_positions e 1 = Some (r, c)
              \<and> 0 \<le> r \<and> r < fst (2::int, 3::int) \<and> 0 \<le> c \<and> c < snd (2::int, 3::int)
              \<and> (r, c) \<notin> set (obstacles e) \<and> obstacles e = obstacles e0)"
    by (rule conjunct2)
  with b have "\<exists>r c. agent_positions e 1 = Some (r, c) \<and> 0 \<le> r \<and> r < 2 \<and> 0 \<le> c \<and> c < 3
          \<and> (r, c) \<notin> set (obstacles e)"
    by fastforce
  with a b c d w show ?thesis
    by (intro exI[of _ e0] exI[of _ e]) simp
qed

section \<open>Shaped rewards\<close>

lemma step_Inr_shaped:
  assumes "step e acts = Inr (e', v)" and "i < num_agents e"
  shows "shaped_rewards v i =
           Some (shaped_reward (the (raw_rewards v i)) (the (agent_positions e i))
                   (the (agent_positions e' i)) (the (destinations e i)))"
  using assms
  by (auto simp: step_def Let_def split: if_splits sum.splits)

lemma shaped_reward_5_4:
  assumes "manhattan p g = 5" and "manhattan q g = 4"
  shows "shaped_reward (- 1) p q g = 5368709 / 134217728"
proof -
  have "float32 (float64 (float64 (of_int (- 1))
            + float64 (float64 (gamma * float64 (of_int (- 4))) - float64 (of_int (- 5)))))
        = 5368709 / 134217728"
    by code_simp
  with assms show ?thesis by (simp add: shaped_reward_def Let_def)
qed

text \<open>
  C2 (as amended). For an agent whose Manhattan distance to its destination is 5 before a
  step and 4 after it (so that its raw reward is -1), the shaped reward that \<open>step\<close> returns
  is the \<open>float32\<close> nearest to 0.04: it is \<open>5368709 / 2^27\<close>, within \<open>10^-9\<close> of \<open>+0.04\<close>.
\<close>

theorem shaped_reward_arithmetic:
  assumes "step e acts = Inr (e', v)"
    and "i < num_agents e"
    and "manhattan (the (agent_positions e i)) (the (destinations e i)) = 5"
    and "manhattan (the (agent_positions e' i)) (the (destinations e i)) = 4"
  shows "raw_rewards v i = Some (- 1)
     \<and> shaped_rewards v i = Some (5368709 / 134217728)
     \<and> \<bar>the (shaped_rewards v i) - 4 / 100\<bar> < 1 / 10 ^ 9"
proof -
  from step_Inr_keys[OF assms(1,2)] obtain p g where
    p: "agent_positions e i = Some p" and g: "destinations e i = Some g" by auto
  note s = step_Inr[OF assms(1)]
  obtain q where q: "agent_positions e' i = Some q"
    using assms(2) p step_Inr_keys(2)[OF assms(1,2)]
    by (cases "i \<in> blocked v") (auto simp: s(8) s(1) final_loop_def)
  from assms(4) q g have "q \<noteq> g" by (auto simp: manhattan_def)
  with q g have "agent_positions e' i \<noteq> destinations e i" by simp
  from step_raw_cases(3)[OF assms(1,2) this] have raw: "raw_rewards v i = Some (- 1)" by simp
  from step_Inr_shaped[OF assms(1,2)] raw p q g
  have "shaped_rewards v i = Some (shaped_reward (- 1) p q g)" by simp
  also have "shaped_reward (- 1) p q g = 5368709 / 134217728"
    using assms(3,4) p q g by (intro shaped_reward_5_4) simp_all
  finally have sh: "shaped_rewards v i = Some (5368709 / 134217728)" .
  with raw show ?thesis by simp
qed

theorem shaped_reward_arithmetic_witness:
  "\<exists>e e' v.
     TrafficRoutingEnv_init (1, 6) 1 None (\<lambda>i. (0, 0)) (\<lambda>i. (0, 5)) = Inr e
   \<and> step e [(0, 3)] = Inr (e', v)
   \<and> manhattan (the (agent_positions e 0)) (the (destinations e 0)) = 5
   \<and> manhattan (the (agent_positions e' 0)) (the (destinations e 0)) = 4
   \<and> raw_rewards v 0 = Some (- 1)
   \<and> shaped_rewards v 0 = Some (5368709 / 134217728)"
proof -
  have "case TrafficRoutingEnv_init (1, 6) 1 None (\<lambda>i. (0, 0)) (\<lambda>i. (0, 5)) of
          Inl _ \<Rightarrow> False
        | Inr e \<Rightarrow> (case step e [(0, 3)] of
            Inl _ \<Rightarrow> False
          | Inr (e', v) \<Rightarrow>
              manhattan (the (agent_positions e 0)) (the (destinations e 0)) = 5
            \<and> manhattan (the (agent_positions e' 0)) (the (destinations e 0)) = 4)"
    by code_simp
  then obtain e e' v where
    a: "TrafficRoutingEnv_init (1, 6) 1 None (\<lambda>i. (0, 0)) (\<lambda>i. (0, 5)) = Inr e"
    and b: "step e [(0, 3)] = Inr (e', v)"
    and c: "manhattan (the (agent_positions e 0)) (the (destinations e 0)) = 5"
      "manhattan (the (agent_positions e' 0)) (the (destinations e 0)) = 4"
    by (auto split: sum.splits)
  have n: "0 < num_agents e" using init_fields(2)[OF a] by simp
  from shaped_reward_arithmetic[OF b n c] a b c show ?thesis
    by (intro exI[of _ e] exI[of _ e'] exI[of _ v]) simp
qed

text \<open>
  The claim as stated puts the value at -0.04: on the one-row grid with the agent five
  cells from its destination and moving towards it, the returned reward is positive and more
  than 0.07 away from -0.04.
\<close>

theorem shaped_reward_counterexample:
  "case TrafficRoutingEnv_init (1, 6) 1 None (\<lambda>i. (0, 0)) (\<lambda>i. (0, 5)) of
     Inl err \<Rightarrow> False
   | Inr e \<Rightarrow>
       (case step e [(0, 3)] of
          Inl err \<Rightarrow> False
        | Inr (e', v) \<Rightarrow>
            manhattan (the (agent_positions e 0)) (the (destinations e 0)) = 5
          \<and> manhattan (the (agent_positions e' 0)) (the (destinations e 0)) = 4
          \<and> raw_rewards v 0 = Some (- 1)
          \<and> shaped_rewards v 0 = Some (5368709 / 134217728)
          \<and> \<bar>the (shaped_rewards v 0) - (- 4 / 100)\<bar> > 7 / 100)"
  by code_simp

section \<open>Two agents on one cell\<close>

text \<open>
  C3. The claim is that a step from pairwise distinct cells ends on pairwise distinct cells.
  On the 2 by 2 grid with agents 0, 1, 2 on \<open>(0,0)\<close>, \<open>(0,1)\<close>, \<open>(1,0)\<close>, agents 0 and 1
  try to trade places and are held, and agent 2 moves up onto \<open>(0,0)\<close>: it is the only
  claimant of that cell among the agents that are not swap-blocked, so it is not blocked, and
  it ends the step on the cell of agent 0.
\<close>

theorem step_shares_cell:
  "case TrafficRoutingEnv_init (2, 2) 3 None (\<lambda>i. [(0, 0), (0, 1), (1, 0)] ! i)
          (\<lambda>i. [(1, 1), (1, 1), (1, 1)] ! i) of
     Inl err \<Rightarrow> False
   | Inr e \<Rightarrow>
       distinct (map (agent_positions e) [0, 1, 2])
     \<and> (case step e [(0, 3), (1, 2), (2, 0)] of
          Inl err \<Rightarrow> False
        | Inr (e', v) \<Rightarrow>
            swap_blocked v = {0, 1} \<and> collision_blocked v = {}
          \<and> agent_positions e' 0 = Some (0, 0)
          \<and> agent_positions e' 1 = Some (0, 1)
          \<and> agent_positions e' 2 = Some (0, 0))"
  by code_simp

section \<open>The done flag of the trainer\<close>

lemma move_near: "manhattan (move gs p a) p \<le> 1"
  by (auto simp: manhattan_def move_def Let_def)

lemma desired_cell_near: "manhattan (desired_cell e p a) p \<le> 1"
  using move_near[of "grid_size e" p a]
  by (auto simp: desired_cell_def Let_def manhattan_def)

lemma desired_positions_near:
  "desired_positions e old acts new0 = Inr new \<Longrightarrow>
   (\<And>c. new0 i = Some c \<Longrightarrow> manhattan c p \<le> 1) \<Longrightarrow>
   old i = Some p \<Longrightarrow> new i = Some c \<Longrightarrow> manhattan c p \<le> 1"
proof (induction acts arbitrary: new0)
  case Nil
  then show ?case by simp
next
  case (Cons a acts)
  obtain j action where a: "a = (j, action)" by (cases a)
  from Cons.prems(1) a obtain p' where p': "old j = Some p'" by (auto split: option.splits)
  let ?n1 = "if arrived_get e j then new0(j \<mapsto> p') else new0(j \<mapsto> desired_cell e p' action)"
  from Cons.prems(1) a p' have r: "desired_positions e old acts ?n1 = Inr new"
    by (simp split: if_splits)
  have "manhattan c' p \<le> 1" if "?n1 i = Some c'" for c'
  proof (cases "i = j")
    case True
    with p' Cons.prems(3) have "p' = p" by simp
    with that True desired_cell_near[of e p action] show ?thesis
      by (auto simp: manhattan_def split: if_splits)
  next
    case False
    with that Cons.prems(2) show ?thesis by (auto split: if_splits)
  qed
  from Cons.IH[OF r this Cons.prems(3) Cons.prems(4)] show ?case by simp
qed

lemma step_near:
  assumes "step e acts = Inr (e', v)" and "i < num_agents e"
    and "agent_positions e i = Some p" and "agent_positions e' i = Some q"
  shows "manhattan q p \<le> 1"
proof -
  note s = step_Inr[OF assms(1)]
  from step_Inr_keys(2)[OF assms(1,2)] obtain c where c: "new_positions v i = Some c" by blast
  have "manhattan c p \<le> 1"
  proof (rule desired_positions_near[OF s(2) _ _ c])
    show "manhattan c' p \<le> 1" if "Map.empty i = Some c'" for c' using that by simp
    show "old_positions v i = Some p" using assms(2,3) by (simp add: s(1))
  qed
  moreover have "manhattan p p \<le> 1" by (simp add: manhattan_def)
  ultimately show ?thesis
    using assms(2,3,4) c
    by (cases "i \<in> blocked v") (simp_all add: s(8) s(1) final_loop_def)
qed

lemma shaped_reward_arrival:
  assumes "manhattan p g = 1"
  shows "shaped_reward 10 p g g = 11"
proof -
  have "float32 (float64 (float64 (of_int 10)
            + float64 (float64 (gamma * float64 (of_int (- 0))) - float64 (of_int (- 1)))))
        = 11"
    by code_simp
  with assms show ?thesis by (simp add: shaped_reward_def Let_def manhattan_def)
qed

text \<open>
  C1. The claim is that the trainer sets \<open>done_dict[i]\<close> in every step in which agent \<open>i\<close>
  freshly arrives (raw reward 10, latch newly set). The trainer tests \<open>rewards[i] == 10\<close> on
  the shaped reward. What holds instead: whenever an agent freshly arrives by moving onto
  its destination, its shaped reward is 11 and the loop leaves \<open>done_dict[i]\<close> as it was, so
  that the next \<open>select_action\<close> is not forced to 4.
\<close>

theorem fresh_arrival_not_flagged:
  assumes "step e acts = Inr (e', v)"
    and "i < num_agents e"
    and "raw_rewards v i = Some 10"
    and "agent_positions e i \<noteq> destinations e i"
  shows "arrived e i = Some False \<and> arrived e' i = Some True
     \<and> agent_positions e' i = destinations e i
     \<and> shaped_rewards v i = Some 11
     \<and> snd (store_transition buf done_i s a (the (shaped_rewards v i)) s') = done_i
     \<and> select_action choice (snd (store_transition buf False s a (the (shaped_rewards v i)) s'))
          = choice"
proof -
  from step_ten_iff[OF assms(1,2)] assms(3)
  have at: "agent_positions e' i = destinations e i" and l: "arrived e i = Some False" by simp_all
  from step_raw_cases(1)[OF assms(1,2) at l] have l': "arrived e' i = Some True" by simp
  from step_Inr_keys[OF assms(1,2)] obtain p g where
    p: "agent_positions e i = Some p" and g: "destinations e i = Some g" by auto
  from at g have q: "agent_positions e' i = Some g" by simp
  from assms(4) p g have "p \<noteq> g" by simp
  then have "manhattan g p \<noteq> 0" by (auto simp: manhattan_def prod_eq_iff)
  moreover have "0 \<le> manhattan g p" by (simp add: manhattan_def)
  ultimately have "manhattan g p = 1" using step_near[OF assms(1,2) p q] by simp
  then have "manhattan p g = 1" by (simp add: manhattan_def abs_minus_commute)
  from shaped_reward_arrival[OF this] step_Inr_shaped[OF assms(1,2)] assms(3) p q g
  have sh: "shaped_rewards v i = Some 11" by simp
  with at l l' show ?thesis by (simp add: store_transition_def select_action_def)
qed

theorem fresh_arrival_not_flagged_witness:
  "\<exists>e0 e' v buf.
     TrafficRoutingEnv_init (2, 2) 1 None (\<lambda>i. (0, 0)) (\<lambda>i. (0, 1)) = Inr e0
   \<and> step (fst (reset e0)) [(0, select_action 3 False)] = Inr (e', v)
   \<and> raw_rewards v 0 = Some 10
   \<and> agent_positions (fst (reset e0)) 0 = Some (0, 0) \<and> destinations (fst (reset e0)) 0 = Some (0, 1)
   \<and> arrived (fst (reset e0)) 0 = Some False \<and> arrived e' 0 = Some True
   \<and> shaped_rewards v 0 = Some 11
   \<and> ReplayBuffer_init 5000 = Inr buf
   \<and> snd (store_transition buf False [] 3 (the (shaped_rewards v 0)) []) = False
   \<and> select_action 0 (snd (store_transition buf False [] 3 (the (shaped_rewards v 0)) [])) = 0"
proof -
  have "case TrafficRoutingEnv_init (2, 2) 1 None (\<lambda>i. (0, 0)) (\<lambda>i. (0, 1)) of
          Inl err \<Rightarrow> False
        | Inr e0 \<Rightarrow>
           (case step (fst (reset e0)) [(0, select_action 3 False)] of
              Inl err \<Rightarrow> False
            | Inr (e', v) \<Rightarrow> raw_rewards v 0 = Some 10
                \<and> agent_positions (fst (reset e0)) 0 = Some (0, 0)
                \<and> destinations (fst (reset e0)) 0 = Some (0, 1))"
    by code_simp
  then obtain e0 e' v where
    a: "TrafficRoutingEnv_init (2, 2) 1 None (\<lambda>i. (0, 0)) (\<lambda>i. (0, 1)) = Inr e0"
    and b: "step (fst (reset e0)) [(0, select_action 3 False)] = Inr (e', v)"
    and c: "raw_rewards v 0 = Some 10" "agent_positions (fst (reset e0)) 0 = Some (0, 0)"
      "destinations (fst (reset e0)) 0 = Some (0, 1)"
    by (auto split: sum.splits)
  have n: "0 < num_agents (fst (reset e0))"
    using init_fields(2)[OF a] by (simp add: reset_fields)
  have ne: "agent_positions (fst (reset e0)) 0 \<noteq> destinations (fst (reset e0)) 0"
    using c by simp
  have i: "ReplayBuffer_init 5000 = Inr \<lparr> capacity = 5000, buffer = [] \<rparr>"
    by (simp add: ReplayBuffer_init_def)
  let ?buf = "\<lparr> capacity = 5000, buffer = [] \<rparr>"
  note t = fresh_arrival_not_flagged[OF b n c(1) ne, of ?buf False "[]" 3 "[]" 0]
  have "TrafficRoutingEnv_init (2, 2) 1 None (\<lambda>i. (0, 0)) (\<lambda>i. (0, 1)) = Inr e0
   \<and> step (fst (reset e0)) [(0, select_action 3 False)] = Inr (e', v)
   \<and> raw_rewards v 0 = Some 10
   \<and> agent_positions (fst (reset e0)) 0 = Some (0, 0) \<and> destinations (fst (reset e0)) 0 = Some (0, 1)
   \<and> arrived (fst (reset e0)) 0 = Some False \<and> arrived e' 0 = Some True
   \<and> shaped_rewards v 0 = Some 11
   \<and> ReplayBuffer_init 5000 = Inr ?buf
   \<and> snd (store_transition ?buf False [] 3 (the (shaped_rewards v 0)) []) = False
   \<and> select_action 0 (snd (store_transition ?buf False [] 3 (the (shaped_rewards v 0)) [])) = 0"
    using t a b c i by (intro conjI) (simp_all add: store_transition_def select_action_def)
  then show ?thesis by blast
qed

section \<open>Rounding keeps the unit interval\<close>

lemma pow2_pos: "0 < pow2 k"
  by (simp add: pow2_def)

lemma pow2_le_one: "pow2 k \<le> 1 \<Longrightarrow> k \<le> 0"
proof (rule ccontr)
  assume a: "pow2 k \<le> 1" and "\<not> k \<le> 0"
  then have "0 < k" by simp
  then have "pow2 k = 2 ^ nat k" "0 < nat k" by (simp_all add: pow2_def)
  then have "(2::rat) ^ 1 \<le> pow2 k" by (simp add: self_le_power)
  with a show False by simp
qed

lemma pow2_nonpos_inverse: "k \<le> 0 \<Longrightarrow> pow2 k * of_int (2 ^ nat (- k)) = 1"
  by (cases "k = 0") (simp_all add: pow2_def)

lemma round_half_even_nonneg: "0 \<le> y \<Longrightarrow> 0 \<le> round_half_even y"
  by (auto simp: round_half_even_def Let_def)

lemma round_half_even_le: "y \<le> of_int N \<Longrightarrow> round_half_even y \<le> N"
proof -
  assume a: "y \<le> of_int N"
  have f: "\<lfloor>y\<rfloor> \<le> N" using a by (simp add: floor_le_iff)
  show ?thesis
  proof (cases "\<lfloor>y\<rfloor> = N")
    case True
    with a have "y - of_int \<lfloor>y\<rfloor> \<le> 0" by simp
    then show ?thesis using True by (simp add: round_half_even_def Let_def)
  next
    case False
    with f have "\<lfloor>y\<rfloor> + 1 \<le> N" by simp
    with f show ?thesis by (auto simp: round_half_even_def Let_def)
  qed
qed

lemma binade_le_zero:
  assumes "0 < x" and "x \<le> 1"
  shows "binade x \<le> 0"
proof -
  obtain a b where q: "quotient_of x = (a, b)" by (cases "quotient_of x")
  from quotient_of_denom_pos[OF q] have b: "0 < b" .
  from quotient_of_div[OF q] have x: "x = of_int a / of_int b" .
  from assms(2) x b have "a \<le> b" by (simp add: divide_le_eq)
  then have "bitlen a \<le> bitlen b"
    by (simp add: bitlen_def floorlog_mono)
  then have d: "bitlen a - bitlen b \<le> 0" by simp
  have ax: "\<bar>x\<bar> = x" using assms(1) by simp
  show ?thesis
    using d by (simp add: binade_def ax q Let_def)
qed

lemma round_float_unit:
  assumes "0 \<le> x" and "x \<le> 1" and "0 < p"
  shows "0 \<le> round_float p x \<and> round_float p x \<le> 1"
proof (cases "x = 0")
  case True
  then show ?thesis by (simp add: round_float_def)
next
  case False
  with assms(1) have xp: "0 < x" by simp
  let ?k = "binade x - int p + 1"
  let ?q = "pow2 ?k"
  have k: "?k \<le> 0" using binade_le_zero[OF xp assms(2)] assms(3) by simp
  have q: "0 < ?q" by (rule pow2_pos)
  have r: "round_float p x = of_int (round_half_even (x / ?q)) * ?q"
    using False by (simp add: round_float_def Let_def)
  have "0 \<le> x / ?q" using xp q by simp
  then have lo: "0 \<le> round_half_even (x / ?q)" by (rule round_half_even_nonneg)
  have inv: "?q * of_int (2 ^ nat (- ?k)) = 1" using k by (rule pow2_nonpos_inverse)
  then have "1 / ?q = of_int (2 ^ nat (- ?k))" using q by (simp add: field_simps)
  moreover have "x / ?q \<le> 1 / ?q" using assms(2) q by (simp add: divide_right_mono)
  ultimately have "x / ?q \<le> of_int (2 ^ nat (- ?k))" by simp
  then have hi: "round_half_even (x / ?q) \<le> 2 ^ nat (- ?k)" by (rule round_half_even_le)
  have "of_int (round_half_even (x / ?q)) * ?q \<le> of_int (2 ^ nat (- ?k)) * ?q"
    using hi q by (intro mult_right_mono) (simp_all add: less_imp_le)
  also have "\<dots> = 1" using inv by (simp add: mult.commute)
  finally have "round_float p x \<le> 1" by (simp add: r)
  moreover have "0 \<le> round_float p x" using lo q by (simp add: r less_imp_le)
  ultimately show ?thesis by simp
qed

lemma float_unit:
  assumes "0 \<le> x" and "x \<le> 1"
  shows "0 \<le> float64 x \<and> float64 x \<le> 1" and "0 \<le> float32 x \<and> float32 x \<le> 1"
  using round_float_unit[OF assms, of 53] round_float_unit[OF assms, of 24]
  by (simp_all add: float64_def float32_def)

lemma true_div_unit:
  assumes "0 \<le> a" and "a \<le> b" and "0 < b"
  shows "0 \<le> float32 (true_div a b) \<and> float32 (true_div a b) \<le> 1"
proof -
  have "0 \<le> (of_int a / of_int b :: rat)" "(of_int a / of_int b :: rat) \<le> 1"
    using assms by (simp_all add: divide_le_eq)
  from float_unit(1)[OF this] have "0 \<le> true_div a b \<and> true_div a b \<le> 1"
    by (simp add: true_div_def)
  then show ?thesis using float_unit(2) by blast
qed

section \<open>Properties of the observation encoder\<close>

lemma mark_cells_binary:
  "mark_cells gs cs occ = Inr occ' \<Longrightarrow> (\<And>p. occ p = 0 \<or> occ p = 1) \<Longrightarrow> occ' p = 0 \<or> occ' p = 1"
proof (induction cs arbitrary: occ)
  case Nil
  then show ?case by simp
next
  case (Cons c cs)
  from Cons.prems(1) obtain r k where r: "np_index (fst gs) (fst c) = Some r"
    and k: "np_index (snd gs) (snd c) = Some k"
    and m: "mark_cells gs cs (occ((r, k) := 1)) = Inr occ'"
    by (auto split: option.splits)
  show ?case
    by (rule Cons.IH[OF m]) (use Cons.prems(2) in auto)
qed

lemma mark_agents_binary:
  "mark_agents gs obs js occ = Inr occ' \<Longrightarrow> (\<And>p. occ p = 0 \<or> occ p = 1) \<Longrightarrow>
     occ' p = 0 \<or> occ' p = 1"
proof (induction js arbitrary: occ)
  case Nil
  then show ?case by simp
next
  case (Cons j js)
  from Cons.prems(1) obtain info where i: "map_of obs j = Some info"
    by (cases "map_of obs j") simp_all
  with Cons.prems(1) obtain occ1 where
    m1: "mark_cells gs [position info] occ = Inr occ1"
    and m2: "mark_agents gs obs js occ1 = Inr occ'"
    by (cases "mark_cells gs [position info] occ") (simp_all del: mark_cells.simps)
  have "occ1 p = 0 \<or> occ1 p = 1" for p
    by (rule mark_cells_binary[OF m1]) (rule Cons.prems(2))
  from Cons.IH[OF m2 this] show ?case .
qed

lemma local_window_unit:
  assumes "\<And>p. occ p = 0 \<or> occ p = 1"
  shows "length (local_window gs occ c) = 9"
    and "x \<in> set (local_window gs occ c) \<Longrightarrow> 0 \<le> x \<and> x \<le> 1"
proof -
  show "length (local_window gs occ c) = 9"
    by (simp add: local_window_def)
  have b: "0 \<le> occ p" "occ p \<le> 1" for p
    using assms[of p] by auto
  assume "x \<in> set (local_window gs occ c)"
  then show "0 \<le> x \<and> x \<le> 1"
    by (auto simp: local_window_def Let_def b)
qed

lemma encode_agent_unit:
  assumes "encode_agent gs occ info = Inr st"
    and "2 \<le> fst gs" and "2 \<le> snd gs"
    and "in_grid gs (position info)" and "in_grid gs (destination info)"
    and "\<And>p. occ p = 0 \<or> occ p = 1"
  shows "length st = 14" and "x \<in> set st \<Longrightarrow> 0 \<le> x \<and> x \<le> 1"
proof -
  let ?H = "fst gs" and ?W = "snd gs"
  let ?x = "fst (position info)" and ?y = "snd (position info)"
  let ?dx = "fst (destination info)" and ?dy = "snd (destination info)"
  let ?dist = "\<bar>?x - ?dx\<bar> + \<bar>?y - ?dy\<bar>"
  from assms(2,3) have nz: "?H - 1 \<noteq> 0" "?W - 1 \<noteq> 0" "(?H - 1) + (?W - 1) \<noteq> 0" by simp_all
  from assms(1) nz have st: "st =
      map float32 [true_div ?x (?H - 1), true_div ?y (?W - 1),
                   true_div ?dx (?H - 1), true_div ?dy (?W - 1)]
      @ local_window gs occ (?x, ?y)
      @ [float32 (true_div ?dist ((?H - 1) + (?W - 1)))]"
    by (simp add: encode_agent_def Let_def)
  show "length st = 14"
    by (simp add: st local_window_unit(1)[OF assms(6)])
  from assms(4,5) have b: "0 \<le> ?x" "?x \<le> ?H - 1" "0 \<le> ?y" "?y \<le> ?W - 1"
    "0 \<le> ?dx" "?dx \<le> ?H - 1" "0 \<le> ?dy" "?dy \<le> ?W - 1"
    by (simp_all add: in_grid_def)
  from assms(2,3) have pos: "0 < ?H - 1" "0 < ?W - 1" "0 < (?H - 1) + (?W - 1)" by simp_all
  from b have d: "0 \<le> ?dist" "?dist \<le> (?H - 1) + (?W - 1)" by linarith+
  note u = true_div_unit[OF b(1,2) pos(1)] true_div_unit[OF b(3,4) pos(2)]
    true_div_unit[OF b(5,6) pos(1)] true_div_unit[OF b(7,8) pos(2)]
    true_div_unit[OF d pos(3)]
  assume "x \<in> set st"
  then consider "x = float32 (true_div ?x (?H - 1))" | "x = float32 (true_div ?y (?W - 1))"
    | "x = float32 (true_div ?dx (?H - 1))" | "x = float32 (true_div ?dy (?W - 1))"
    | "x \<in> set (local_window gs occ (?x, ?y))"
    | "x = float32 (true_div ?dist ((?H - 1) + (?W - 1)))"
    by (auto simp: st)
  then show "0 \<le> x \<and> x \<le> 1"
  proof cases
    case 5
    then show ?thesis by (rule local_window_unit(2)[OF assms(6)])
  qed (use u in simp_all)
qed

lemma encode_all_unit:
  assumes "encode_all gs occ obs = Inr sd"
    and "2 \<le> fst gs" and "2 \<le> snd gs"
    and "\<And>i info. (i, info) \<in> set obs \<Longrightarrow>
           in_grid gs (position info) \<and> in_grid gs (destination info)"
    and "\<And>p. occ p = 0 \<or> occ p = 1"
    and "(i, st) \<in> set sd"
  shows "length st = 14 \<and> (\<forall>x \<in> set st. 0 \<le> x \<and> x \<le> 1)"
  using assms(1,4,6)
proof (induction obs arbitrary: sd)
  case Nil
  then show ?case by simp
next
  case (Cons o' obs)
  obtain j info where o': "o' = (j, info)" by (cases o')
  from Cons.prems(1) o' obtain st1 sd1 where e1: "encode_agent gs occ info = Inr st1"
    and e2: "encode_all gs occ obs = Inr sd1" and sd: "sd = (j, st1) # sd1"
    by (auto split: sum.splits)
  from Cons.prems(2)[of j info] o' have g: "in_grid gs (position info)" "in_grid gs (destination info)"
    by simp_all
  from Cons.prems(3) sd consider "st = st1" | "(i, st) \<in> set sd1" by auto
  then show ?case
  proof cases
    case 1
    with encode_agent_unit[OF e1 assms(2,3) g assms(5)] show ?thesis by blast
  next
    case 2
    show ?thesis
      by (rule Cons.IH[OF e2 _ 2]) (use Cons.prems(2) in auto)
  qed
qed

lemma obs_to_state_unit:
  assumes "obs_to_state obs gs = Inr sd"
    and "2 \<le> fst gs" and "2 \<le> snd gs"
    and "\<And>i info. (i, info) \<in> set obs \<Longrightarrow>
           in_grid gs (position info) \<and> in_grid gs (destination info)"
    and "(i, st) \<in> set sd"
  shows "length st = 14 \<and> (\<forall>x \<in> set st. 0 \<le> x \<and> x \<le> 1)"
proof -
  from assms(1) obtain k first rest occ1 occ where
    o: "obs = (k, first) # rest"
    and m1: "mark_cells gs (case obs_obstacles first of None \<Rightarrow> [] | Some l \<Rightarrow> l) (\<lambda>p. 0) = Inr occ1"
    and m2: "mark_agents gs obs [0..<length obs] occ1 = Inr occ"
    and e: "encode_all gs occ obs = Inr sd"
    by (auto simp: obs_to_state_def split: if_splits list.splits sum.splits)
  have b1: "occ1 p = 0 \<or> occ1 p = 1" for p
    by (rule mark_cells_binary[OF m1]) simp
  have b: "occ p = 0 \<or> occ p = 1" for p
    by (rule mark_agents_binary[OF m2]) (rule b1)
  from encode_all_unit[OF e assms(2,3,4) b assms(5)] show ?thesis .
qed

lemma encode_all_keys: "encode_all gs occ obs = Inr sd \<Longrightarrow> map fst sd = map fst obs"
proof (induction obs arbitrary: sd)
  case Nil
  then show ?case by simp
next
  case (Cons o' obs)
  obtain j info where o': "o' = (j, info)" by (cases o')
  from Cons.prems o' obtain st1 sd1 where e2: "encode_all gs occ obs = Inr sd1"
    and sd: "sd = (j, st1) # sd1"
    by (auto split: sum.splits)
  from Cons.IH[OF e2] sd o' show ?case by simp
qed

lemma np_index_in_range: "0 \<le> k \<Longrightarrow> k < len \<Longrightarrow> np_index len k = Some k"
  by (simp add: np_index_def)

lemma mark_cells_total:
  "list_all (in_grid gs) cs \<Longrightarrow> \<exists>occ'. mark_cells gs cs occ = Inr occ'"
proof (induction cs arbitrary: occ)
  case Nil
  then show ?case by simp
next
  case (Cons c cs)
  from Cons.prems have g: "in_grid gs c" and r: "list_all (in_grid gs) cs" by simp_all
  from g have "np_index (fst gs) (fst c) = Some (fst c)" "np_index (snd gs) (snd c) = Some (snd c)"
    by (simp_all add: in_grid_def np_index_in_range)
  moreover from Cons.IH[OF r, of "occ((fst c, snd c) := 1)"] obtain occ' where
    "mark_cells gs cs (occ((fst c, snd c) := 1)) = Inr occ'" ..
  ultimately have "mark_cells gs (c # cs) occ = Inr occ'" by (simp only: mark_cells.simps option.case)
  then show ?case by blast
qed

lemma mark_agents_total:
  "(\<And>j. j \<in> set js \<Longrightarrow> \<exists>info. map_of obs j = Some info \<and> in_grid gs (position info)) \<Longrightarrow>
     \<exists>occ'. mark_agents gs obs js occ = Inr occ'"
proof (induction js arbitrary: occ)
  case Nil
  then show ?case by simp
next
  case (Cons j js)
  from Cons.prems[of j] obtain info where i: "map_of obs j = Some info"
    and g: "in_grid gs (position info)" by auto
  from mark_cells_total[of gs "[position info]" occ] g obtain occ1 where
    m: "mark_cells gs [position info] occ = Inr occ1" by auto
  have "\<exists>occ'. mark_agents gs obs js occ1 = Inr occ'"
    by (rule Cons.IH) (use Cons.prems in auto)
  with i m show ?case by (simp del: mark_cells.simps)
qed

lemma encode_agent_total:
  "2 \<le> fst gs \<Longrightarrow> 2 \<le> snd gs \<Longrightarrow> \<exists>st. encode_agent gs occ info = Inr st"
  by (simp add: encode_agent_def Let_def)

lemma encode_all_total:
  "2 \<le> fst gs \<Longrightarrow> 2 \<le> snd gs \<Longrightarrow> \<exists>sd. encode_all gs occ obs = Inr sd"
proof (induction obs)
  case Nil
  then show ?case by simp
next
  case (Cons o' obs)
  obtain j info where o': "o' = (j, info)" by (cases o')
  from encode_agent_total[OF Cons.prems, of occ info] obtain st where
    "encode_agent gs occ info = Inr st" ..
  moreover from Cons.IH[OF Cons.prems] obtain sd where "encode_all gs occ obs = Inr sd" ..
  ultimately show ?case by (simp add: o')
qed

lemma obs_to_state_total:
  assumes "2 \<le> fst gs" and "2 \<le> snd gs" and "obs_in_grid gs obs"
    and "obs \<noteq> []" and "map fst obs = [0..<length obs]"
  shows "\<exists>sd. obs_to_state obs gs = Inr sd"
proof -
  from assms(4) obtain k first rest where o: "obs = (k, first) # rest"
    by (cases obs) auto
  from assms(3) o have "list_all (in_grid gs) (case obs_obstacles first of None \<Rightarrow> [] | Some l \<Rightarrow> l)"
    by (simp add: obs_in_grid_def)
  from mark_cells_total[OF this, of "\<lambda>p. 0"] obtain occ1 where
    m1: "mark_cells gs (case obs_obstacles first of None \<Rightarrow> [] | Some l \<Rightarrow> l) (\<lambda>p. 0) = Inr occ1"
    by blast
  have d: "distinct (map fst obs)" by (simp add: assms(5))
  have look: "\<exists>info. map_of obs j = Some info \<and> in_grid gs (position info)"
    if "j \<in> set [0..<length obs]" for j
  proof -
    from that have j: "j < length obs" by simp
    then have "fst (obs ! j) = j"
      using assms(5) by (metis nth_map nth_upt add_0 length_map)
    with j have m: "(j, snd (obs ! j)) \<in> set obs"
      by (metis nth_mem prod.collapse)
    with d have "map_of obs j = Some (snd (obs ! j))" by simp
    moreover from assms(3) m have "in_grid gs (position (snd (obs ! j)))"
      by (auto simp: obs_in_grid_def list_all_iff)
    ultimately show ?thesis by blast
  qed
  from mark_agents_total[of "[0..<length obs]" obs gs occ1, OF look] obtain occ where
    m2: "mark_agents gs obs [0..<length obs] occ1 = Inr occ" by blast
  from encode_all_total[OF assms(1,2), of occ obs] obtain sd where
    e: "encode_all gs occ obs = Inr sd" ..
  have "obs_to_state obs gs = Inr sd"
    using assms(1,2) m1 m2 e o
    by (simp add: obs_to_state_def del: mark_cells.simps mark_agents.simps encode_all.simps)
  then show ?thesis by (rule exI)
qed

text \<open>
  C10. On a grid with at least two rows and two columns, for an observation map whose
  positions, destinations and obstacle cells lie within the grid, every component of every
  state vector that \<open>obs_to_state\<close> produces lies in the closed interval from 0 to 1; each
  vector has 14 components and each agent of the map gets one. The function does return
  when the map is keyed by the agent ids \<open>0, \<dots>, n - 1\<close> and is not empty.
\<close>

theorem obs_to_state_unit_interval:
  assumes "2 \<le> fst gs" and "2 \<le> snd gs" and "obs_in_grid gs obs"
  shows "(obs \<noteq> [] \<and> map fst obs = [0..<length obs] \<longrightarrow> (\<exists>sd. obs_to_state obs gs = Inr sd))
     \<and> (\<forall>sd. obs_to_state obs gs = Inr sd \<longrightarrow>
           map fst sd = map fst obs
         \<and> (\<forall>(i, st) \<in> set sd. length st = 14 \<and> (\<forall>x \<in> set st. 0 \<le> x \<and> x \<le> 1)))"
proof (intro conjI impI allI)
  show "\<exists>sd. obs_to_state obs gs = Inr sd" if "obs \<noteq> [] \<and> map fst obs = [0..<length obs]"
    using obs_to_state_total[OF assms] that by simp
  fix sd assume s: "obs_to_state obs gs = Inr sd"
  have g: "in_grid gs (position info) \<and> in_grid gs (destination info)"
    if "(i, info) \<in> set obs" for i info
    using assms(3) that by (auto simp: obs_in_grid_def list_all_iff)
  show "\<forall>(i, st) \<in> set sd. length st = 14 \<and> (\<forall>x \<in> set st. 0 \<le> x \<and> x \<le> 1)"
    using obs_to_state_unit[OF s assms(1,2) g] by auto
  from s obtain occ where "encode_all gs occ obs = Inr sd"
    by (auto simp: obs_to_state_def split: if_splits list.splits sum.splits)
  then show "map fst sd = map fst obs" by (rule encode_all_keys)
qed

theorem obs_to_state_unit_interval_witness:
  "(2::int) \<le> fst (3::int, 4::int) \<and> (2::int) \<le> snd (3::int, 4::int)
   \<and> obs_in_grid (3, 4)
        [(0, \<lparr> position = (0, 0), destination = (2, 1), obs_obstacles = Some [(1, 1)] \<rparr>),
         (1, \<lparr> position = (1, 0), destination = (0, 2), obs_obstacles = Some [(1, 1)] \<rparr>)]
   \<and> obs_to_state
        [(0, \<lparr> position = (0, 0), destination = (2, 1), obs_obstacles = Some [(1, 1)] \<rparr>),
         (1, \<lparr> position = (1, 0), destination = (0, 2), obs_obstacles = Some [(1, 1)] \<rparr>)] (3, 4)
      = Inr [(0, [0, 0, 1, 11184811 / 33554432, 0, 0, 0, 0, 1, 0, 0, 1, 1, 5033165 / 8388608]),
             (1, [1 / 2, 0, 0, 11184811 / 16777216, 0, 1, 0, 0, 1, 1, 0, 0, 0, 5033165 / 8388608])]
   \<and> (0::rat) \<le> 11184811 / 33554432 \<and> (11184811 / 33554432 :: rat) \<le> 1"
proof -
  let ?obs = "[(0, \<lparr> position = (0, 0), destination = (2, 1), obs_obstacles = Some [(1, 1)] \<rparr>),
         (1::nat, \<lparr> position = (1, 0), destination = (0, 2), obs_obstacles = Some [(1, 1)] \<rparr>)]"
  let ?sd = "[(0::nat, [0, 0, 1, 11184811 / 33554432, 0, 0, 0, 0, 1, 0, 0, 1, 1, 5033165 / 8388608 :: rat]),
             (1, [1 / 2, 0, 0, 11184811 / 16777216, 0, 1, 0, 0, 1, 1, 0, 0, 0, 5033165 / 8388608])]"
  have a: "(2::int) \<le> fst (3::int, 4::int)" and b: "(2::int) \<le> snd (3::int, 4::int)" by simp_all
  have c: "obs_in_grid (3, 4) ?obs" by code_simp
  have d: "obs_to_state ?obs (3, 4) = Inr ?sd" by code_simp
  from obs_to_state_unit_interval[OF a b c] d
  have "\<forall>(i, st) \<in> set ?sd. length st = 14 \<and> (\<forall>x \<in> set st. 0 \<le> x \<and> x \<le> 1)"
    by blast
  then have "(0::rat) \<le> 11184811 / 33554432 \<and> (11184811 / 33554432 :: rat) \<le> 1"
    by simp
  with a b c d show ?thesis by simp
qed

end
